theory Spec2Isabelle
  imports Complex_Main
begin

section \<open>Data model of the image compressor (ImageCompressorApp.tsx)\<close>

text \<open>
  The component keeps its state in React hooks: a list of job records \<open>images\<close>, the
  pending list \<open>queue\<close>, the list \<open>active\<close> of admitted jobs, the counter \<open>completed\<close>,
  the flag \<open>paused\<close>, the current selection, and three refs that mirror \<open>queue\<close>,
  \<open>active\<close> and \<open>paused\<close> after every commit. Every handler is modelled as a function
  on a record of that state. A function of the source that awaits the external
  compression is split at the \<open>await\<close>: the part before it, and one function per outcome.
\<close>

datatype status = Idle | Queued | Compressing | Compressed | Error | Cancelled

text \<open>A browser \<open>File\<close>: only \<open>name\<close>, \<open>type\<close> and \<open>size\<close> are read by the component.\<close>

record File =
  fname :: string
  ftype :: string
  fsize :: nat

text \<open>
  A JavaScript number as far as the compression ratio needs it: an integer, or \<open>NaN\<close>
  (which \<open>Math.max(0, NaN)\<close> returns when both sizes are zero).
\<close>

datatype number = Num int | NaN

record CompressedImage =
  img_id :: string
  name :: string
  originalSize :: nat
  compressedSize :: nat
  originalFile :: File
  compressedFile :: "File option"
  compressionRatio :: number
  preview :: string
  compressedPreview :: string
  status :: status

datatype toast = ToastError string | ToastSuccess string

record app_state =
  images :: "CompressedImage list"
  selectedImage :: "CompressedImage option"
  isCompressing :: bool
  isRecompressing :: bool
  queue :: "string list"
  active :: "string list"
  completed :: nat
  paused :: bool
  queueRef :: "string list"
  activeRef :: "string list"
  pausedRef :: bool
  toasts :: "toast list"

definition MAX_UPLOAD_SIZE_MB :: nat where
  "MAX_UPLOAD_SIZE_MB = 5"

definition MAX_CONCURRENT :: nat where
  "MAX_CONCURRENT = 3"

definition initial_state :: app_state where
  "initial_state =
     \<lparr>images = [], selectedImage = None, isCompressing = False, isRecompressing = False,
      queue = [], active = [], completed = 0, paused = False,
      queueRef = [], activeRef = [], pausedRef = False, toasts = []\<rparr>"

section \<open>Batch progress (lines 79-80)\<close>

definition totalToProcess :: "app_state \<Rightarrow> nat" where
  "totalToProcess s =
     length (filter (\<lambda>img. status img \<noteq> Idle \<and> status img \<noteq> Cancelled) (images s))"

section \<open>The compression result (compressImage, lines 108-134)\<close>

text \<open>
  JavaScript numbers are IEEE 754 binary64 values, and each arithmetic operation gives
  the real result rounded to the nearest such value, a tie going to the even
  significand. \<open>fl\<close> is that rounding, on the reals: \<open>exponent a\<close> is the binary exponent
  of \<open>a > 0\<close> (the \<open>e\<close> with \<open>2^e \<le> a < 2^(e+1)\<close>, lemmas \<open>exponent_lower\<close> and
  \<open>exponent_upper\<close>), and the result is the multiple of \<open>2^(e-52)\<close> nearest to the
  argument, so that the significand has 53 bits. The exponent range is not bounded
  here: file sizes are integers below \<open>2^53\<close>, for which the quotient, the difference
  and the product of line 117 neither overflow nor are subnormal.
\<close>

fun bitlength :: "nat \<Rightarrow> nat" where
  "bitlength n = (if n = 0 then 0 else Suc (bitlength (n div 2)))"

definition exponent :: "real \<Rightarrow> int" where
  "exponent a =
     (if 1 \<le> a then int (bitlength (nat \<lfloor>a\<rfloor>)) - 1
      else - int (bitlength (nat (\<lceil>1 / a\<rceil> - 1))))"

definition round_half_even :: "real \<Rightarrow> int" where
  "round_half_even m =
     (let n = \<lfloor>m\<rfloor>; r = m - of_int n
      in if r < 1 / 2 then n else if 1 / 2 < r then n + 1 else if even n then n else n + 1)"

definition fl :: "real \<Rightarrow> real" where
  "fl x =
     (if x = 0 then 0
      else let a = \<bar>x\<bar>; u = power_int 2 (exponent a - 52)
           in sgn x * (of_int (round_half_even (a / u)) * u))"

text \<open>
  \<open>Math.round\<close> gives the integer nearest to its argument, a half going upwards; it
  is exact on a double.
\<close>

definition Math_round :: "real \<Rightarrow> int" where
  "Math_round x = \<lfloor>x + 1 / 2\<rfloor>"

text \<open>
  Line 117: \<open>Math.max(0, Math.round((1 - compressedFile.size / file.size) * 100))\<close>,
  with the division, the subtraction and the multiplication each rounded to a double.
  A division by zero gives \<open>Infinity\<close> (the ratio is then \<open>max(0, -Infinity) = 0\<close>), and
  \<open>0 / 0\<close> gives \<open>NaN\<close>.
\<close>

definition ratio :: "nat \<Rightarrow> nat \<Rightarrow> number" where
  "ratio compressed_size file_size =
     (if file_size = 0 then (if compressed_size = 0 then NaN else Num 0)
      else Num (max 0 (Math_round
             (fl (fl (1 - fl (real compressed_size / real file_size)) * 100)))))"

record compress_result =
  r_compressedFile :: File
  r_compressedPreview :: string
  r_compressionRatio :: number
  r_name :: string
  r_compressedSize :: nat

text \<open>
  The library call \<open>imageCompression(file, options)\<close> is external: its output file is
  an argument here, with the object URL the browser makes for it and the output name
  (lines 118-126, a regular-expression replace of the extension that no property below
  depends on).
\<close>

definition compressImage :: "File \<Rightarrow> File \<Rightarrow> string \<Rightarrow> string \<Rightarrow> compress_result" where
  "compressImage file compressed url newName =
     \<lparr>r_compressedFile = compressed,
      r_compressedPreview = url,
      r_compressionRatio = ratio (fsize compressed) (fsize file),
      r_name = newName,
      r_compressedSize = fsize compressed\<rparr>"

text \<open>An awaited compression either resolves with a result or rejects.\<close>

datatype outcome = Resolved compress_result | Rejected

section \<open>Adding files (handleFiles, lines 175-203)\<close>

definition startsWith :: "string \<Rightarrow> string \<Rightarrow> bool" where
  "startsWith s p = (take (length p) s = p)"

definition newImage :: "string \<Rightarrow> string \<Rightarrow> File \<Rightarrow> CompressedImage" where
  "newImage ident url file =
     \<lparr>img_id = ident, name = fname file, originalSize = fsize file, compressedSize = 0,
      originalFile = file, compressedFile = None, compressionRatio = Num 0,
      preview = url, compressedPreview = [], status = Queued\<rparr>"

text \<open>
  \<open>rnd k\<close> is the identifier that the \<open>k\<close>-th call of \<open>Math.random\<close> of this batch gives,
  \<open>createObjectURL\<close> the browser's URL for a file. \<open>None\<close> is the \<open>null\<close> file list.
\<close>

definition handleFiles ::
  "(nat \<Rightarrow> string) \<Rightarrow> (File \<Rightarrow> string) \<Rightarrow> File list option \<Rightarrow> app_state \<Rightarrow> app_state" where
  "handleFiles rnd createObjectURL files s =
     (case files of
        None \<Rightarrow> s
      | Some fs \<Rightarrow>
          let imageFiles = filter (\<lambda>file. startsWith (ftype file) ''image/'') fs in
          if length imageFiles = 0
          then s\<lparr>toasts := toasts s @ [ToastError ''Please select valid image files'']\<rparr>
          else
            let oversizedFiles =
                  filter (\<lambda>file. fsize file > MAX_UPLOAD_SIZE_MB * 1024 * 1024) imageFiles in
            if length oversizedFiles > 0
            then s\<lparr>toasts := toasts s @ [ToastError ''Some files exceed the 5MB size limit.'']\<rparr>
            else
              let newImages =
                    map (\<lambda>(k, file). newImage (rnd k) (createObjectURL file) file)
                        (enumerate 0 imageFiles) in
              s\<lparr>isCompressing := True,
                images := images s @ newImages,
                queue := queue s @ map img_id newImages\<rparr>)"

section \<open>The scheduler (processQueue, lines 137-166)\<close>

text \<open>The \<open>finally\<close> block: the job leaves the active list.\<close>

definition finally_block :: "string \<Rightarrow> app_state \<Rightarrow> app_state" where
  "finally_block nextId s = s\<lparr>active := filter (\<lambda>i. i \<noteq> nextId) (active s)\<rparr>"

text \<open>
  The identifier that a call of \<open>processQueue\<close> admits: the three guards of lines 138-140
  read the refs, and line 141 takes the head of \<open>queueRef\<close>.
\<close>

definition next_admitted :: "app_state \<Rightarrow> string option" where
  "next_admitted s =
     (if pausedRef s then None
      else if length (activeRef s) \<ge> MAX_CONCURRENT then None
      else if length (queueRef s) = 0 then None
      else Some (hd (queueRef s)))"

text \<open>
  \<open>processQueue\<close> up to its \<open>await\<close>. The three updates are functional updates of the
  state (not of the refs). When the record is not found in \<open>images\<close> the function
  returns at once through the \<open>finally\<close> block; otherwise the compression is in flight and the
  function continues in \<open>settle\<close>.
\<close>

definition processQueue :: "app_state \<Rightarrow> app_state" where
  "processQueue s =
     (case next_admitted s of
        None \<Rightarrow> s
      | Some nextId \<Rightarrow>
          let s1 = s\<lparr>active := active s @ [nextId],
                     queue := drop 1 (queue s),
                     images := map (\<lambda>img. if img_id img = nextId
                                           then img\<lparr>status := Compressing\<rparr> else img) (images s)\<rparr>
          in (case find (\<lambda>i. img_id i = nextId) (images s) of
                None \<Rightarrow> finally_block nextId s1
              | Some img \<Rightarrow> s1))"

text \<open>
  The rest of \<open>processQueue\<close> for the job \<open>nextId\<close>, once its compression has settled:
  lines 150-159 on success, line 161 on failure, then \<open>finally\<close>. The deferred call
  \<open>setTimeout(processQueue, 0)\<close> is the event \<open>DeferredProcessQueue\<close> below.
\<close>

fun settle :: "string \<Rightarrow> outcome \<Rightarrow> app_state \<Rightarrow> app_state" where
  "settle nextId (Resolved r) s =
     finally_block nextId
       (s\<lparr>images := map (\<lambda>image. if img_id image = nextId
                                 then image\<lparr>compressedFile := Some (r_compressedFile r),
                                            compressedPreview := r_compressedPreview r,
                                            compressionRatio := r_compressionRatio r,
                                            name := r_name r,
                                            compressedSize := r_compressedSize r,
                                            status := Compressed\<rparr>
                                 else image) (images s),
          completed := completed s + 1\<rparr>)"
| "settle nextId Rejected s =
     finally_block nextId
       (s\<lparr>images := map (\<lambda>image. if img_id image = nextId
                                 then image\<lparr>status := Error\<rparr> else image) (images s)\<rparr>)"

section \<open>Pause, cancel, re-run, remove, clear (lines 206-295)\<close>

definition togglePause :: "app_state \<Rightarrow> app_state" where
  "togglePause s = s\<lparr>paused := \<not> paused s\<rparr>"

definition cancelQueued :: "string \<Rightarrow> app_state \<Rightarrow> app_state" where
  "cancelQueued ident s =
     s\<lparr>queue := filter (\<lambda>qid. qid \<noteq> ident) (queue s),
       images := map (\<lambda>img. if img_id img = ident then img\<lparr>status := Cancelled\<rparr> else img)
                     (images s)\<rparr>"

text \<open>
  \<open>recompressSelectedImage\<close> up to its \<open>await\<close> (lines 216-221). It reads neither
  \<open>active\<close> nor the refs.
\<close>

definition recompressSelectedImage :: "app_state \<Rightarrow> app_state" where
  "recompressSelectedImage s =
     (case selectedImage s of
        None \<Rightarrow> s
      | Some sel \<Rightarrow>
          s\<lparr>isRecompressing := True,
            images := map (\<lambda>img. if img_id img = img_id sel
                                  then img\<lparr>status := Compressing\<rparr> else img) (images s)\<rparr>)"

text \<open>
  The rest of \<open>recompressSelectedImage\<close> (lines 222-240). \<open>sel\<close> is the selection that
  the closure captured when the button was clicked.
\<close>

fun recompressSettled :: "CompressedImage \<Rightarrow> outcome \<Rightarrow> app_state \<Rightarrow> app_state" where
  "recompressSettled sel (Resolved r) s =
     (let updatedImage = sel\<lparr>compressedFile := Some (r_compressedFile r),
                             compressedPreview := r_compressedPreview r,
                             compressionRatio := r_compressionRatio r,
                             name := r_name r,
                             compressedSize := r_compressedSize r,
                             status := Compressed\<rparr>
      in s\<lparr>images := map (\<lambda>img. if img_id img = img_id sel then updatedImage else img)
                          (images s),
            selectedImage := Some updatedImage,
            toasts := toasts s @ [ToastSuccess ''Image re-compressed!''],
            isRecompressing := False\<rparr>)"
| "recompressSettled sel Rejected s =
     s\<lparr>images := map (\<lambda>img. if img_id img = img_id sel then img\<lparr>status := Error\<rparr> else img)
                     (images s),
       selectedImage := (case selectedImage s of
                           Some prev \<Rightarrow> Some (prev\<lparr>status := Error\<rparr>)
                         | None \<Rightarrow> None),
       toasts := toasts s @ [ToastError ''Failed to re-compress image''],
       isRecompressing := False\<rparr>"

text \<open>
  \<open>removeImage\<close> and \<open>clearAll\<close>; the release of the object URLs
  (\<open>URL.revokeObjectURL\<close>) has no effect on the state and is left out.
\<close>

definition removeImage :: "string \<Rightarrow> app_state \<Rightarrow> app_state" where
  "removeImage ident s =
     (let remainingImages = filter (\<lambda>img. img_id img \<noteq> ident) (images s) in
      s\<lparr>images := remainingImages,
        selectedImage :=
          (case selectedImage s of
             None \<Rightarrow> None
           | Some sel \<Rightarrow>
               if img_id sel = ident
               then (if length remainingImages > 0 then Some (hd remainingImages) else None)
               else Some sel),
        queue := filter (\<lambda>qid. qid \<noteq> ident) (queue s)\<rparr>)"

definition clearAll :: "app_state \<Rightarrow> app_state" where
  "clearAll s =
     s\<lparr>images := [], queue := [], active := [], completed := 0, selectedImage := None\<rparr>"

section \<open>Effects and the render cycle (lines 65-76 and 168-172)\<close>

text \<open>The three effects of lines 65-67 copy the state into the refs.\<close>

definition sync_refs :: "app_state \<Rightarrow> app_state" where
  "sync_refs s = s\<lparr>queueRef := queue s, activeRef := active s, pausedRef := paused s\<rparr>"

definition refs_synced :: "app_state \<Rightarrow> bool" where
  "refs_synced s = (queueRef s = queue s \<and> activeRef s = active s \<and> pausedRef s = paused s)"

text \<open>The selection effect of lines 69-76.\<close>

definition selection_effect :: "app_state \<Rightarrow> app_state" where
  "selection_effect s =
     (let s1 = (if length (images s) > 0 \<and> selectedImage s = None
                then s\<lparr>selectedImage := Some (hd (images s))\<rparr> else s)
      in if length (images s) = 0 then s1\<lparr>selectedImage := None\<rparr> else s1)"

text \<open>
  The admission trigger of lines 168-172: \<open>admits\<close> is its condition (line 169), read
  from the rendered state.
\<close>

definition admits :: "app_state \<Rightarrow> bool" where
  "admits s = (\<not> paused s \<and> length (queue s) > 0 \<and> length (active s) < MAX_CONCURRENT)"

definition admission_effect :: "app_state \<Rightarrow> app_state" where
  "admission_effect s = (if admits s then processQueue s else s)"

text \<open>
  One commit runs the effects in the order of their declaration. A commit that changes
  the state causes another render and commit; \<open>render_loop\<close> repeats it, and
  \<open>stabilize\<close> gives it one round per pending job and one more, which is enough to
  reach a state whose refs mirror the state and in which the trigger does not fire
  (lemmas \<open>stabilize_synced\<close> and \<open>stabilize_not_admits\<close>).
\<close>

definition commit :: "app_state \<Rightarrow> app_state" where
  "commit s = admission_effect (selection_effect (sync_refs s))"

fun render_loop :: "nat \<Rightarrow> app_state \<Rightarrow> app_state" where
  "render_loop 0 s = s"
| "render_loop (Suc n) s = render_loop n (commit s)"

definition stabilize :: "app_state \<Rightarrow> app_state" where
  "stabilize s = render_loop (Suc (length (queue s))) s"

section \<open>Events\<close>

text \<open>
  What can happen to the component: the user's clicks, each under the condition on
  which the JSX renders or enables its control (pause at lines 357-363, select at 403,
  cancel at 413-414, remove at 422-423, clear all at 369 and 435, re-compress at 444
  and 530), the settling of a compression that was awaited, and the two timers.
  \<open>handle\<close> is the handler of an event alone. \<open>step\<close> is the composite of a handler and
  the whole render cycle that follows it, and \<open>run\<close> a sequence of such steps: the
  executions in which React commits every pending update before the next event is
  taken. The executions in which an event, or the call that \<open>finally\<close> deferred with
  \<open>setTimeout\<close>, comes between two commits are those of \<open>trace\<close> below.
  A settle event carries the identifier (or the captured selection) and the outcome
  of the compression; the events are not restricted to compressions that were started.
\<close>

datatype event =
    FilesChosen "nat \<Rightarrow> string" "File \<Rightarrow> string" "File list option"
  | PauseClicked
  | CancelClicked nat
  | RemoveClicked nat
  | ImageClicked nat
  | RecompressClicked
  | ClearAllClicked
  | CompressionSettled string outcome
  | RecompressionSettled CompressedImage outcome
  | UploadFlagTimeout
  | DeferredProcessQueue

fun handle :: "event \<Rightarrow> app_state \<Rightarrow> app_state" where
  "handle (FilesChosen rnd url files) s = handleFiles rnd url files s"
| "handle PauseClicked s = (if length (images s) > 0 then togglePause s else s)"
| "handle (CancelClicked i) s =
     (if i < length (images s) \<and> status (images s ! i) = Queued
      then cancelQueued (img_id (images s ! i)) s else s)"
| "handle (RemoveClicked i) s =
     (if i < length (images s) \<and>
         (status (images s ! i) = Compressed \<or> status (images s ! i) = Error \<or>
          status (images s ! i) = Cancelled)
      then removeImage (img_id (images s ! i)) s else s)"
| "handle (ImageClicked i) s =
     (if i < length (images s) then s\<lparr>selectedImage := Some (images s ! i)\<rparr> else s)"
| "handle RecompressClicked s =
     (if selectedImage s \<noteq> None \<and> \<not> (isRecompressing s \<or> isCompressing s)
      then recompressSelectedImage s else s)"
| "handle ClearAllClicked s = (if length (images s) > 0 then clearAll s else s)"
| "handle (CompressionSettled nextId out) s = settle nextId out s"
| "handle (RecompressionSettled sel out) s = recompressSettled sel out s"
| "handle UploadFlagTimeout s = s\<lparr>isCompressing := False\<rparr>"
| "handle DeferredProcessQueue s = processQueue s"

definition step :: "event \<Rightarrow> app_state \<Rightarrow> app_state" where
  "step e s = stabilize (handle e s)"

definition run :: "event list \<Rightarrow> app_state \<Rightarrow> app_state" where
  "run evs s = foldl (\<lambda>st e. step e st) s evs"

text \<open>
  The finer interleaving. A tick is either an event, handled without any render, or
  one render and commit of React, in which the effects run once (the refs are
  synchronised, then the trigger of lines 168-172 calls \<open>processQueue\<close> at most once).
  The state updates of a handler are functional (\<open>setX(prev => ...)\<close>) or constant, so
  they compose in the order of the calls whether or not a render comes between them,
  and the model applies them at once; the refs change only in a commit. So after a
  tick that changed \<open>queue\<close>, \<open>active\<close> or \<open>paused\<close> the refs are stale until the next
  \<open>Render\<close>, and an \<open>Ev DeferredProcessQueue\<close> tick there is the timer of line 164 firing
  before React has committed. What a handler reads of the state outside an update is
  the state of the last render in the source and the current state in the model: the
  conditions of the controls, the selection, and the images that \<open>images.find\<close> of line
  146 searches (which decides only whether the job enters the active list or leaves
  through \<open>finally\<close> at once). The two agree where a render stands between an update and
  the handler that reads what it changed, as in the example traces below.
  \<open>ticks\<close> gives the trace that a run is: each event followed by the renders of
  \<open>stabilize\<close> (lemma \<open>run_is_trace\<close>).
\<close>

datatype tick = Ev event | Render

fun tick_step :: "tick \<Rightarrow> app_state \<Rightarrow> app_state" where
  "tick_step (Ev e) s = handle e s"
| "tick_step Render s = commit s"

definition trace :: "tick list \<Rightarrow> app_state \<Rightarrow> app_state" where
  "trace ts s = foldl (\<lambda>st t. tick_step t st) s ts"

fun ticks :: "event list \<Rightarrow> app_state \<Rightarrow> tick list" where
  "ticks [] s = []"
| "ticks (e # es) s =
     Ev e # replicate (Suc (length (queue (handle e s)))) Render @ ticks es (step e s)"

section \<open>The properties as the specification words them\<close>

text \<open>
  A valid file in the words of the specification: image-typed and at most 5 MiB.
\<close>

definition valid_file :: "File \<Rightarrow> bool" where
  "valid_file f = (startsWith (ftype f) ''image/'' \<and> fsize f \<le> 5 * 1024 * 1024)"

text \<open>
  The compression ratio in the words of the specification:
  \<open>max(0, round((1 - outputSize/inputSize) * 100))\<close>, in exact arithmetic over the reals.
\<close>

definition spec_ratio :: "nat \<Rightarrow> nat \<Rightarrow> int" where
  "spec_ratio outputSize inputSize =
     max 0 (round ((1 - real outputSize / real inputSize) * 100))"

text \<open>The number of jobs whose status is \<open>Compressing\<close>.\<close>

definition compressingCount :: "app_state \<Rightarrow> nat" where
  "compressingCount s = length (filter (\<lambda>img. status img = Compressing) (images s))"

text \<open>
  The successful settles of a trace, by job identifier, and the results whose output
  size is the size of their output file, as every result of \<open>compressImage\<close> is
  (lemma \<open>compressImage_sized\<close>).
\<close>

fun success_of :: "tick \<Rightarrow> string list" where
  "success_of (Ev (CompressionSettled nextId (Resolved r))) = [nextId]"
| "success_of (Ev (RecompressionSettled sel (Resolved r))) = [img_id sel]"
| "success_of t = []"

definition succeeded :: "tick list \<Rightarrow> string list" where
  "succeeded ts = concat (map success_of ts)"

definition sized :: "compress_result \<Rightarrow> bool" where
  "sized r = (r_compressedSize r = fsize (r_compressedFile r))"

fun well_formed :: "tick \<Rightarrow> bool" where
  "well_formed (Ev (CompressionSettled nextId (Resolved r))) = sized r"
| "well_formed (Ev (RecompressionSettled sel (Resolved r))) = sized r"
| "well_formed t = True"

text \<open>
  A record is consistent with the successes \<open>ok\<close> when it either has no result data (no
  compressed file, output size 0) and is not \<open>Compressed\<close>, or has a compressed file
  with its size as output size, is neither \<open>Queued\<close> nor \<open>Idle\<close>, and belongs to a job of
  which a compression has succeeded.
\<close>

definition result_consistent :: "string list \<Rightarrow> CompressedImage \<Rightarrow> bool" where
  "result_consistent ok img =
     (case compressedFile img of
        None \<Rightarrow> compressedSize img = 0 \<and> status img \<noteq> Compressed
      | Some f \<Rightarrow> compressedSize img = fsize f \<and> status img \<noteq> Queued \<and> status img \<noteq> Idle \<and>
                  img_id img \<in> set ok)"

text \<open>
  What the scheduler admits. \<open>admission_of s\<close> is the job that a call of \<open>processQueue\<close> in
  the state \<open>s\<close> admits (none, or the \<open>nextId\<close> of line 141), \<open>tick_log\<close> what a tick
  admits (a render calls \<open>processQueue\<close> when the trigger fires, the deferred call is one
  call, no other event calls it), and \<open>trace_log\<close> the admissions of a trace in their
  order. \<open>deferred_in_step\<close> holds of a trace in which every deferred call finds the
  refs equal to the state, \<open>kept A\<close> of a trace in which the job \<open>A\<close> leaves the pending
  list only by being admitted (it is not cancelled or removed, and the list is not
  cleared, while it is pending), and \<open>before A B xs\<close> when \<open>A\<close> occurs in \<open>xs\<close> ahead of
  the first \<open>B\<close>.
\<close>

definition admission_of :: "app_state \<Rightarrow> string list" where
  "admission_of s = (case next_admitted s of None \<Rightarrow> [] | Some nextId \<Rightarrow> [nextId])"

fun tick_log :: "tick \<Rightarrow> app_state \<Rightarrow> string list" where
  "tick_log (Ev DeferredProcessQueue) s = admission_of s"
| "tick_log (Ev e) s = []"
| "tick_log Render s =
     (let s1 = selection_effect (sync_refs s) in if admits s1 then admission_of s1 else [])"

fun trace_log :: "tick list \<Rightarrow> app_state \<Rightarrow> string list" where
  "trace_log [] s = []"
| "trace_log (t # ts) s = tick_log t s @ trace_log ts (tick_step t s)"

fun deferred_in_step :: "tick list \<Rightarrow> app_state \<Rightarrow> bool" where
  "deferred_in_step [] s = True"
| "deferred_in_step (t # ts) s =
     ((t = Ev DeferredProcessQueue \<longrightarrow> refs_synced s) \<and> deferred_in_step ts (tick_step t s))"

definition spares :: "string \<Rightarrow> tick \<Rightarrow> app_state \<Rightarrow> bool" where
  "spares A t s =
     (A \<in> set (queue s) \<longrightarrow> A \<in> set (queue (tick_step t s)) \<or> A \<in> set (tick_log t s))"

fun kept :: "string \<Rightarrow> tick list \<Rightarrow> app_state \<Rightarrow> bool" where
  "kept A [] s = True"
| "kept A (t # ts) s = (spares A t s \<and> kept A ts (tick_step t s))"

definition before :: "string \<Rightarrow> string \<Rightarrow> string list \<Rightarrow> bool" where
  "before A B xs = (A \<in> set (takeWhile (\<lambda>x. x \<noteq> B) xs))"

text \<open>The events that are a successful settle of a scheduled compression.\<close>

fun settled_ok :: "event \<Rightarrow> bool" where
  "settled_ok (CompressionSettled nextId (Resolved r)) = True"
| "settled_ok e = False"

text \<open>The job \<open>x\<close> is admitted: in the active list, with every record of it \<open>Compressing\<close>.\<close>

definition admitted :: "string \<Rightarrow> app_state \<Rightarrow> bool" where
  "admitted x s =
     (x \<in> set (active s) \<and> x \<in> img_id ` set (images s) \<and>
      list_all (\<lambda>img. img_id img = x \<longrightarrow> status img = Compressing) (images s))"

text \<open>The job \<open>x\<close> is out of the scheduler: neither pending nor active.\<close>

definition excluded :: "string \<Rightarrow> app_state \<Rightarrow> bool" where
  "excluded x s = (x \<notin> set (queue s) \<and> x \<notin> set (active s))"


section \<open>Concrete inputs\<close>

definition ex_rnd :: "string \<Rightarrow> nat \<Rightarrow> string" where
  "ex_rnd p k = p @ replicate k (CHR ''x'')"

definition ex_url :: "File \<Rightarrow> string" where
  "ex_url f = ''blob:'' @ fname f"

definition ex_small :: File where
  "ex_small = \<lparr>fname = ''a.png'', ftype = ''image/png'', fsize = 1000000\<rparr>"

definition ex_big :: File where
  "ex_big = \<lparr>fname = ''b.png'', ftype = ''image/png'', fsize = 6000000\<rparr>"

definition ex_text :: File where
  "ex_text = \<lparr>fname = ''n.txt'', ftype = ''text/plain'', fsize = 10\<rparr>"

definition ex_out :: File where
  "ex_out = \<lparr>fname = ''a.webp'', ftype = ''image/webp'', fsize = 250000\<rparr>"

definition ex_half :: File where
  "ex_half = \<lparr>fname = ''a.webp'', ftype = ''image/webp'', fsize = 425000\<rparr>"

definition ex_result :: compress_result where
  "ex_result = compressImage ex_small ex_out ''blob:a.webp'' ''a.webp''"

definition ex_state1 :: app_state where
  "ex_state1 = run [FilesChosen (ex_rnd ''a'') ex_url (Some [ex_small])] initial_state"

definition ex_snapshot :: CompressedImage where
  "ex_snapshot = newImage ''a'' ''blob:a.png'' ex_small"

definition ex_done :: "event list" where
  "ex_done = [FilesChosen (ex_rnd ''a'') ex_url (Some [ex_small]),
              CompressionSettled ''a'' (Resolved ex_result)]"

definition ex_stale :: "event list" where
  "ex_stale = ex_done @ [UploadFlagTimeout, RecompressClicked]"

definition ex_stale_failed :: "event list" where
  "ex_stale_failed = ex_stale @ [RecompressionSettled ex_snapshot Rejected]"

definition ex_rerun :: "event list" where
  "ex_rerun = ex_done @
              [UploadFlagTimeout,
               FilesChosen (ex_rnd ''b'') ex_url (Some [ex_small, ex_small, ex_small]),
               UploadFlagTimeout,
               RecompressClicked]"

definition ex_mixed :: "event list" where
  "ex_mixed = [FilesChosen (ex_rnd ''a'') ex_url (Some [ex_small, ex_small]),
               CompressionSettled ''a'' (Resolved ex_result),
               CompressionSettled ''ax'' Rejected]"

definition ex_paused :: "event list" where
  "ex_paused = [FilesChosen (ex_rnd ''a'') ex_url (Some [ex_small]),
                PauseClicked,
                FilesChosen (ex_rnd ''b'') ex_url (Some [ex_small]),
                UploadFlagTimeout]"

definition ex_paused_state :: app_state where
  "ex_paused_state = run ex_paused initial_state"

definition ex_paused_rerun :: "event list" where
  "ex_paused_rerun = ex_paused @ [ImageClicked 1, RecompressClicked]"

definition ex_after_cancel :: "event list" where
  "ex_after_cancel = [PauseClicked, CompressionSettled ''a'' (Resolved ex_result)]"

definition ex_error_rerun :: "event list" where
  "ex_error_rerun =
     [FilesChosen (ex_rnd ''a'') ex_url (Some [ex_small]),
      CompressionSettled ''a'' Rejected,
      UploadFlagTimeout,
      RecompressClicked]"

definition ex_rerun_after_error :: "event list" where
  "ex_rerun_after_error =
     ex_error_rerun @ [RecompressionSettled ex_snapshot (Resolved ex_result)]"

definition ex_snapshot_b :: CompressedImage where
  "ex_snapshot_b = newImage ''b'' ''blob:a.png'' ex_small"

definition ex_race_prefix :: "tick list" where
  "ex_race_prefix =
     [Ev (FilesChosen (ex_rnd ''a'') ex_url
            (Some [ex_small, ex_small, ex_small, ex_small, ex_small])),
      Render, Render, Render, Render,
      Ev (CompressionSettled ''a'' (Resolved ex_result)),
      Render]"

definition ex_race :: "tick list" where
  "ex_race = ex_race_prefix @ [Ev DeferredProcessQueue]"

definition ex_overtake :: "tick list" where
  "ex_overtake =
     [Ev (FilesChosen (ex_rnd ''a'') ex_url
            (Some [ex_small, ex_small, ex_small, ex_small, ex_small])),
      Render, Render, Render, Render,
      Ev UploadFlagTimeout, Render,
      Ev (ImageClicked 4), Render,
      Ev RecompressClicked, Render]"

definition ex_batch :: app_state where
  "ex_batch = handleFiles (ex_rnd ''a'') ex_url
                (Some [ex_small, ex_small, ex_small, ex_small, ex_small]) initial_state"

definition ex_admit :: "tick list" where
  "ex_admit = [Render, Ev (CancelClicked 4), Render, Render, Render, Ev DeferredProcessQueue]"

definition ex_compressed :: "tick list" where
  "ex_compressed =
     [Ev (FilesChosen (ex_rnd ''a'') ex_url (Some [ex_small])), Render, Render,
      Ev (CompressionSettled ''a'' (Resolved ex_result)), Render]"

definition ex_uploaded :: "tick list" where
  "ex_uploaded = [Ev (FilesChosen (ex_rnd ''a'') ex_url (Some [ex_small]))]"

definition ex_result_half :: compress_result where
  "ex_result_half = compressImage ex_small ex_half ''blob:a.webp'' ''a.webp''"

section \<open>Unfolding the model\<close>

declare settle.simps [simp del] recompressSettled.simps [simp del] bitlength.simps [simp del]

lemma settle_resolved_images:
  "images (settle nextId (Resolved r) s) =
     map (\<lambda>image. if img_id image = nextId
                   then image\<lparr>compressedFile := Some (r_compressedFile r),
                              compressedPreview := r_compressedPreview r,
                              compressionRatio := r_compressionRatio r,
                              name := r_name r,
                              compressedSize := r_compressedSize r,
                              status := Compressed\<rparr>
                   else image) (images s)"
  by (simp add: settle.simps finally_block_def)

lemma settle_rejected_images:
  "images (settle nextId Rejected s) =
     map (\<lambda>image. if img_id image = nextId then image\<lparr>status := Error\<rparr> else image)
         (images s)"
  by (simp add: settle.simps finally_block_def)

lemmas model_defs =
  run_def step_def stabilize_def commit_def handleFiles_def startsWith_def
  MAX_UPLOAD_SIZE_MB_def initial_state_def newImage_def sync_refs_def selection_effect_def
  admits_def admission_effect_def MAX_CONCURRENT_def processQueue_def next_admitted_def
  finally_block_def togglePause_def cancelQueued_def recompressSelectedImage_def
  removeImage_def clearAll_def settle.simps recompressSettled.simps

lemmas trace_defs = trace_def admission_of_def

lemmas ex_defs =
  ex_small_def ex_rnd_def ex_url_def ex_big_def ex_text_def ex_out_def ex_result_def
  compressImage_def ex_snapshot_def ex_done_def ex_stale_def ex_stale_failed_def ex_rerun_def
  ex_paused_def ex_paused_state_def ex_paused_rerun_def ex_after_cancel_def ex_mixed_def
  ex_error_rerun_def ex_rerun_after_error_def ex_snapshot_b_def

section \<open>The scheduler admits one job per call\<close>

lemma processQueue_none: "next_admitted s = None \<Longrightarrow> processQueue s = s"
  by (simp add: processQueue_def)

lemma processQueue_frame [simp]:
  "paused (processQueue s) = paused s"
  "completed (processQueue s) = completed s"
  "queueRef (processQueue s) = queueRef s"
  "activeRef (processQueue s) = activeRef s"
  "pausedRef (processQueue s) = pausedRef s"
  "selectedImage (processQueue s) = selectedImage s"
  "toasts (processQueue s) = toasts s"
  "isCompressing (processQueue s) = isCompressing s"
  "isRecompressing (processQueue s) = isRecompressing s"
  by (simp_all add: processQueue_def finally_block_def Let_def split: option.splits)

lemma processQueue_queue:
  "queue (processQueue s) = (if next_admitted s = None then queue s else drop 1 (queue s))"
  by (simp add: processQueue_def finally_block_def Let_def split: option.splits)

lemma processQueue_images:
  "images (processQueue s) =
     (case next_admitted s of
        None \<Rightarrow> images s
      | Some nextId \<Rightarrow> map (\<lambda>img. if img_id img = nextId
                                  then img\<lparr>status := Compressing\<rparr> else img) (images s))"
  by (simp add: processQueue_def finally_block_def Let_def split: option.splits)

lemma find_id_None: "(find (\<lambda>i. img_id i = x) xs = None) = (x \<notin> img_id ` set xs)"
  by (auto simp: find_None_iff)

lemma processQueue_active:
  "active (processQueue s) =
     (case next_admitted s of
        None \<Rightarrow> active s
      | Some nextId \<Rightarrow>
          (if nextId \<in> img_id ` set (images s) then active s @ [nextId]
           else filter (\<lambda>i. i \<noteq> nextId) (active s)))"
proof (cases "next_admitted s")
  case None
  then show ?thesis by (simp add: processQueue_def)
next
  case (Some x)
  show ?thesis
  proof (cases "find (\<lambda>i. img_id i = x) (images s)")
    case None
    then have "x \<notin> img_id ` set (images s)" by (simp add: find_id_None)
    then show ?thesis using Some None
      by (simp add: processQueue_def finally_block_def Let_def)
  next
    case (Some img)
    then have "x \<in> img_id ` set (images s)" using find_id_None [of x "images s"] by simp
    then show ?thesis using \<open>next_admitted s = Some x\<close> Some
      by (simp add: processQueue_def Let_def)
  qed
qed

lemma next_admitted_synced:
  "refs_synced s \<Longrightarrow>
   next_admitted s =
     (if paused s \<or> MAX_CONCURRENT \<le> length (active s) \<or> queue s = [] then None
      else Some (hd (queue s)))"
  by (simp add: next_admitted_def refs_synced_def)

lemma processQueue_bound:
  assumes "refs_synced s" and "length (active s) \<le> MAX_CONCURRENT"
  shows "length (active (processQueue s)) \<le> MAX_CONCURRENT"
proof (cases "next_admitted s")
  case None
  then show ?thesis using assms(2) by (simp add: processQueue_active)
next
  case (Some x)
  then have lt: "length (active s) < MAX_CONCURRENT"
    using assms(1) by (simp add: next_admitted_synced split: if_splits)
  have "length (filter (\<lambda>i. i \<noteq> x) (active s)) \<le> length (active s)"
    by (rule length_filter_le)
  with lt have a: "length (filter (\<lambda>i. i \<noteq> x) (active s)) \<le> MAX_CONCURRENT"
    by linarith
  from lt have b: "length (active s @ [x]) \<le> MAX_CONCURRENT" by simp
  from a b show ?thesis using Some by (simp add: processQueue_active del: length_append)
qed

section \<open>The render cycle reaches a synchronised state\<close>

lemma sync_refs_synced [simp]: "refs_synced (sync_refs s)"
  by (simp add: sync_refs_def refs_synced_def)

lemma sync_refs_frame [simp]:
  "images (sync_refs s) = images s" "queue (sync_refs s) = queue s"
  "active (sync_refs s) = active s" "paused (sync_refs s) = paused s"
  "completed (sync_refs s) = completed s" "selectedImage (sync_refs s) = selectedImage s"
  "toasts (sync_refs s) = toasts s"
  "isCompressing (sync_refs s) = isCompressing s"
  "isRecompressing (sync_refs s) = isRecompressing s"
  by (simp_all add: sync_refs_def)

lemma selection_effect_frame [simp]:
  "images (selection_effect s) = images s" "queue (selection_effect s) = queue s"
  "active (selection_effect s) = active s" "paused (selection_effect s) = paused s"
  "completed (selection_effect s) = completed s"
  "queueRef (selection_effect s) = queueRef s" "activeRef (selection_effect s) = activeRef s"
  "pausedRef (selection_effect s) = pausedRef s"
  "toasts (selection_effect s) = toasts s"
  "isCompressing (selection_effect s) = isCompressing s"
  "isRecompressing (selection_effect s) = isRecompressing s"
  by (simp_all add: selection_effect_def Let_def)

lemma selection_effect_synced [simp]: "refs_synced (selection_effect s) = refs_synced s"
  by (simp add: refs_synced_def)

lemma sync_refs_id: "refs_synced s \<Longrightarrow> sync_refs s = s"
  by (simp add: sync_refs_def refs_synced_def)

lemma selection_effect_idem: "selection_effect (selection_effect s) = selection_effect s"
  by (simp add: selection_effect_def Let_def)

lemma admits_effects [simp]: "admits (selection_effect (sync_refs s)) = admits s"
  by (simp add: admits_def)

lemma commit_no_admit:
  "\<not> admits s \<Longrightarrow> commit s = selection_effect (sync_refs s)"
  by (simp add: commit_def admission_effect_def)

lemma commit_admit:
  "admits s \<Longrightarrow> commit s = processQueue (selection_effect (sync_refs s))"
  by (simp add: commit_def admission_effect_def)

lemma admits_next:
  "admits s \<Longrightarrow> next_admitted (selection_effect (sync_refs s)) = Some (hd (queue s))"
  by (simp add: next_admitted_synced admits_def)

lemma commit_queue:
  "queue (commit s) = (if admits s then drop 1 (queue s) else queue s)"
  by (simp add: commit_no_admit commit_admit processQueue_queue admits_next)

lemma commit_paused [simp]: "paused (commit s) = paused s"
  by (cases "admits s") (simp_all add: commit_no_admit commit_admit)

lemma commit_completed [simp]: "completed (commit s) = completed s"
  by (cases "admits s") (simp_all add: commit_no_admit commit_admit)

lemma commit_bound:
  "length (active s) \<le> MAX_CONCURRENT \<Longrightarrow> length (active (commit s)) \<le> MAX_CONCURRENT"
  by (cases "admits s") (simp_all add: commit_no_admit commit_admit processQueue_bound)

lemma commit_fixed:
  assumes "\<not> admits s"
  shows "commit (commit s) = commit s"
proof -
  let ?t = "selection_effect (sync_refs s)"
  have t: "commit s = ?t" using assms by (rule commit_no_admit)
  have "\<not> admits ?t" using assms by (simp add: admits_def)
  then have "commit ?t = selection_effect (sync_refs ?t)" by (rule commit_no_admit)
  also have "sync_refs ?t = ?t" by (rule sync_refs_id) simp
  also have "selection_effect ?t = ?t" by (rule selection_effect_idem)
  finally show ?thesis using t by simp
qed

lemma render_loop_fixed: "commit s = s \<Longrightarrow> render_loop n s = s"
  by (induction n) simp_all

lemma render_loop_bound:
  "length (active s) \<le> MAX_CONCURRENT \<Longrightarrow> length (active (render_loop n s)) \<le> MAX_CONCURRENT"
  by (induction n arbitrary: s) (simp_all add: commit_bound)

lemma commit_no_admit_synced: "\<not> admits s \<Longrightarrow> refs_synced (commit s)"
  by (simp add: commit_no_admit)

lemma render_loop_synced:
  "length (queue s) \<le> n \<Longrightarrow> refs_synced (render_loop (Suc n) s) \<and> \<not> admits (render_loop (Suc n) s)"
proof (induction n arbitrary: s)
  case 0
  then have na: "\<not> admits s" by (simp add: admits_def)
  then show ?case by (simp add: commit_no_admit admits_def)
next
  case (Suc n)
  show ?case
  proof (cases "admits s")
    case True
    then have "queue s \<noteq> []" by (auto simp: admits_def)
    then have "length (queue (commit s)) \<le> n"
      using Suc.prems True by (simp add: commit_queue)
    from Suc.IH [OF this] show ?thesis by simp
  next
    case False
    then have "render_loop (Suc n) (commit s) = commit s"
      by (intro render_loop_fixed commit_fixed)
    moreover have "\<not> admits (commit s)" using False by (simp add: commit_no_admit admits_def)
    ultimately show ?thesis using False by (simp add: commit_no_admit_synced)
  qed
qed

lemma stabilize_synced: "refs_synced (stabilize s)"
  unfolding stabilize_def using render_loop_synced [of s "length (queue s)"] by simp

lemma stabilize_not_admits: "\<not> admits (stabilize s)"
  unfolding stabilize_def using render_loop_synced [of s "length (queue s)"] by simp

lemma stabilize_bound:
  "length (active s) \<le> MAX_CONCURRENT \<Longrightarrow> length (active (stabilize s)) \<le> MAX_CONCURRENT"
  unfolding stabilize_def by (rule render_loop_bound)

text \<open>
  After the render cycle the call that \<open>finally\<close> deferred with \<open>setTimeout\<close> finds
  nothing to admit: whatever it could admit, the trigger effect has admitted already.
\<close>

lemma deferred_call_idle: "handle DeferredProcessQueue (step e s) = step e s"
proof -
  let ?t = "stabilize (handle e s)"
  have "refs_synced ?t" by (rule stabilize_synced)
  moreover have "\<not> admits ?t" by (rule stabilize_not_admits)
  ultimately have "next_admitted ?t = None"
    by (auto simp: next_admitted_synced admits_def)
  then show ?thesis by (simp add: step_def processQueue_none)
qed

section \<open>The active list along a run\<close>

lemma handleFiles_active [simp]: "active (handleFiles rnd url files s) = active s"
  by (simp add: handleFiles_def Let_def split: option.splits)

lemma settle_active: "active (settle nextId out s) = filter (\<lambda>i. i \<noteq> nextId) (active s)"
  by (cases out) (simp_all add: settle.simps finally_block_def)

lemma recompressSettled_active [simp]: "active (recompressSettled sel out s) = active s"
  by (cases out) (simp_all add: recompressSettled.simps Let_def)

lemma handle_active_bound:
  assumes "refs_synced s" and "length (active s) \<le> MAX_CONCURRENT"
  shows "length (active (handle e s)) \<le> MAX_CONCURRENT"
proof (cases e)
  case (CompressionSettled nextId out)
  have "length (filter (\<lambda>i. i \<noteq> nextId) (active s)) \<le> length (active s)"
    by (rule length_filter_le)
  with assms(2) have "length (filter (\<lambda>i. i \<noteq> nextId) (active s)) \<le> MAX_CONCURRENT"
    by linarith
  then show ?thesis using CompressionSettled by (simp add: settle_active)
next
  case DeferredProcessQueue
  then show ?thesis using assms by (simp add: processQueue_bound)
qed (use assms(2) in \<open>simp_all add: togglePause_def cancelQueued_def removeImage_def Let_def
       recompressSelectedImage_def clearAll_def split: option.splits\<close>)

lemma step_inv:
  assumes "refs_synced s" and "length (active s) \<le> MAX_CONCURRENT"
  shows "refs_synced (step e s)" and "length (active (step e s)) \<le> MAX_CONCURRENT"
  using assms by (simp_all add: step_def stabilize_synced stabilize_bound handle_active_bound)

lemma run_snoc: "run (evs @ [e]) s = step e (run evs s)"
  by (simp add: run_def)

lemma run_inv:
  assumes "refs_synced s" and "length (active s) \<le> MAX_CONCURRENT"
  shows "refs_synced (run evs s) \<and> length (active (run evs s)) \<le> MAX_CONCURRENT"
proof (induction evs rule: rev_induct)
  case Nil
  show ?case using assms by (simp add: run_def)
next
  case (snoc e evs)
  then show ?case by (simp add: run_snoc step_inv)
qed

lemma initial_inv: "refs_synced initial_state" "length (active initial_state) \<le> MAX_CONCURRENT"
  by (simp_all add: initial_state_def refs_synced_def)

lemma reachable_bound: "length (active (run evs initial_state)) \<le> MAX_CONCURRENT"
  using run_inv [OF initial_inv] by blast

section \<open>The active list along a trace\<close>

lemma trace_Nil [simp]: "trace [] s = s"
  by (simp add: trace_def)

lemma trace_Cons [simp]: "trace (t # ts) s = trace ts (tick_step t s)"
  by (simp add: trace_def)

lemma trace_snoc: "trace (ts @ [t]) s = tick_step t (trace ts s)"
  by (simp add: trace_def)

text \<open>
  Where every deferred call finds the refs equal to the state, the active list stays
  within \<open>MAX_CONCURRENT\<close>: the guard of line 139 then reads the true active list. The
  runs are such traces.
\<close>

lemma tick_active_bound:
  assumes "t = Ev DeferredProcessQueue \<longrightarrow> refs_synced s"
    and "length (active s) \<le> MAX_CONCURRENT"
  shows "length (active (tick_step t s)) \<le> MAX_CONCURRENT"
proof (cases t)
  case Render
  then show ?thesis using assms(2) by (simp add: commit_bound)
next
  case (Ev e)
  show ?thesis
  proof (cases e)
    case (CompressionSettled nextId out)
    have "length (filter (\<lambda>i. i \<noteq> nextId) (active s)) \<le> length (active s)"
      by (rule length_filter_le)
    with assms(2) have "length (filter (\<lambda>i. i \<noteq> nextId) (active s)) \<le> MAX_CONCURRENT"
      by linarith
    then show ?thesis using CompressionSettled Ev by (simp add: settle_active)
  next
    case DeferredProcessQueue
    then show ?thesis using assms Ev by (simp add: processQueue_bound)
  qed (use assms(2) Ev in \<open>simp_all add: togglePause_def cancelQueued_def removeImage_def Let_def
       recompressSelectedImage_def clearAll_def split: option.splits\<close>)
qed

lemma trace_active_bound:
  "deferred_in_step ts s \<Longrightarrow> length (active s) \<le> MAX_CONCURRENT \<Longrightarrow>
   length (active (trace ts s)) \<le> MAX_CONCURRENT"
proof (induction ts arbitrary: s)
  case Nil
  then show ?case by simp
next
  case (Cons t ts)
  from Cons.prems have a: "t = Ev DeferredProcessQueue \<longrightarrow> refs_synced s"
    and b: "deferred_in_step ts (tick_step t s)" by simp_all
  have "length (active (tick_step t s)) \<le> MAX_CONCURRENT"
    using a Cons.prems(2) by (rule tick_active_bound)
  with b show ?case by (simp add: Cons.IH)
qed

lemma trace_append: "trace (xs @ ys) s = trace ys (trace xs s)"
  by (simp add: trace_def)

lemma trace_renders: "trace (replicate n Render) s = render_loop n s"
  by (induction n arbitrary: s) simp_all

lemma run_Cons: "run (e # es) s = run es (step e s)"
  by (simp add: run_def)

lemma run_is_trace: "trace (ticks evs s) s = run evs s"
proof (induction evs arbitrary: s)
  case Nil
  show ?case by (simp add: run_def)
next
  case (Cons e es)
  have "trace (ticks (e # es) s) s
          = trace (ticks es (step e s))
              (trace (replicate (Suc (length (queue (handle e s)))) Render) (handle e s))"
    by (simp add: trace_append del: replicate.simps)
  also have "\<dots> = trace (ticks es (step e s)) (step e s)"
    by (simp only: trace_renders step_def stabilize_def)
  also have "\<dots> = run es (step e s)" by (rule Cons.IH)
  finally show ?case by (simp only: run_Cons)
qed

lemma deferred_renders:
  "deferred_in_step (replicate n Render @ ts) s = deferred_in_step ts (render_loop n s)"
  by (induction n arbitrary: s) simp_all

lemma ticks_in_step: "refs_synced s \<Longrightarrow> deferred_in_step (ticks evs s) s"
proof (induction evs arbitrary: s)
  case Nil
  show ?case by simp
next
  case (Cons e es)
  have "refs_synced (step e s)" unfolding step_def by (rule stabilize_synced)
  then have "deferred_in_step (ticks es (step e s)) (step e s)" by (rule Cons.IH)
  then have "deferred_in_step
               (replicate (Suc (length (queue (handle e s)))) Render @ ticks es (step e s))
               (handle e s)"
    by (simp only: deferred_renders step_def stabilize_def)
  then show ?case using Cons.prems by simp
qed

text \<open>
  C3. The claim is that in every reachable state the active list has at most
  \<open>MAX_CONCURRENT = 3\<close> members, a job being admitted only when fewer than
  \<open>MAX_CONCURRENT\<close> are active. The code breaks it when the deferred call of line 164
  runs between two commits. Five files are uploaded and the renders admit \<open>a\<close>, \<open>ax\<close>
  and \<open>axx\<close>; the compression of \<open>a\<close> settles, and the next commit synchronises the refs
  (two active, \<open>axxx\<close> at the head of the pending list) and admits \<open>axxx\<close>, so that three
  are active. The deferred call, coming before the next commit, still reads two active
  jobs and \<open>axxx\<close> as the head in the refs: it appends \<open>axxx\<close> to the active list again,
  which then has four members, and drops the head of the pending list, which is
  \<open>axxxx\<close>: that job stays \<open>Queued\<close>, in neither list.
\<close>

theorem deferred_call_overflow:
  "active (trace ex_race_prefix initial_state) = [''ax'', ''axx'', ''axxx''] \<and>
   queue (trace ex_race_prefix initial_state) = [''axxxx''] \<and>
   activeRef (trace ex_race_prefix initial_state) = [''ax'', ''axx''] \<and>
   queueRef (trace ex_race_prefix initial_state) = [''axxx'', ''axxxx''] \<and>
   next_admitted (trace ex_race_prefix initial_state) = Some ''axxx'' \<and>
   active (trace ex_race initial_state) = [''ax'', ''axx'', ''axxx'', ''axxx''] \<and>
   length (active (trace ex_race initial_state)) = 4 \<and> MAX_CONCURRENT = 3 \<and>
   queue (trace ex_race initial_state) = [] \<and>
   map img_id (images (trace ex_race initial_state))
     = [''a'', ''ax'', ''axx'', ''axxx'', ''axxxx''] \<and>
   map status (images (trace ex_race initial_state))
     = [Compressed, Compressing, Compressing, Compressing, Queued]"
  by (simp add: ex_race_def ex_race_prefix_def trace_defs model_defs ex_defs)

section \<open>Order of admission\<close>

lemma processQueue_admitted_status:
  assumes "next_admitted s = Some x" and "img \<in> set (images (processQueue s))"
    and "img_id img = x"
  shows "status img = Compressing"
proof -
  from assms(1,2) obtain i where "i \<in> set (images s)"
    and eq: "img = (if img_id i = x then i\<lparr>status := Compressing\<rparr> else i)"
    unfolding processQueue_images by auto
  show ?thesis
  proof (cases "img_id i = x")
    case True
    with eq show ?thesis by simp
  next
    case False
    with eq assms(3) show ?thesis by simp
  qed
qed

lemma before_append: "before A B xs \<Longrightarrow> before A B (xs @ ys)"
  by (auto simp: before_def takeWhile_append dest: set_takeWhileD)

lemma before_head:
  assumes "before A B L \<or> (B \<notin> set L \<and> before A B q)" and "q \<noteq> []"
  shows "before A B (L @ [hd q]) \<or> (B \<notin> set (L @ [hd q]) \<and> before A B (drop 1 q))"
proof (rule disjE [OF assms(1)])
  assume "before A B L"
  then show ?thesis by (simp add: before_append)
next
  assume h: "B \<notin> set L \<and> before A B q"
  from assms(2) obtain x xs where q: "q = x # xs" by (cases q) auto
  from h q have xB: "x \<noteq> B" by (auto simp: before_def split: if_splits)
  from h q xB have ax: "A = x \<or> A \<in> set (takeWhile (\<lambda>y. y \<noteq> B) xs)"
    by (auto simp: before_def)
  show ?thesis
  proof (cases "A = x")
    case True
    have "\<And>y. y \<in> set L \<Longrightarrow> y \<noteq> B" using h by auto
    then have "takeWhile (\<lambda>y. y \<noteq> B) (L @ [x]) = L @ takeWhile (\<lambda>y. y \<noteq> B) [x]"
      by (rule takeWhile_append2)
    then have "takeWhile (\<lambda>y. y \<noteq> B) (L @ [x]) = L @ [x]" using xB by simp
    then show ?thesis using True q by (simp add: before_def)
  next
    case False
    with ax have "before A B xs" by (simp add: before_def)
    then show ?thesis using h xB q by simp
  qed
qed

lemma before_mem: "before A B xs \<Longrightarrow> A \<in> set xs"
  by (auto simp: before_def dest: set_takeWhileD)

lemma before_filter:
  "before A B xs \<Longrightarrow> A \<noteq> x \<Longrightarrow> before A B (filter (\<lambda>y. y \<noteq> x) xs)"
  unfolding before_def by (induction xs) (auto split: if_splits)

lemma handle_queue_cases:
  assumes "e \<noteq> DeferredProcessQueue"
  shows "(\<exists>new. queue (handle e s) = queue s @ new) \<or>
         (\<exists>x. queue (handle e s) = filter (\<lambda>y. y \<noteq> x) (queue s)) \<or>
         queue (handle e s) = []"
proof (cases e)
  case (FilesChosen rnd url files)
  then show ?thesis by (simp add: handleFiles_def Let_def split: option.splits)
next
  case (CancelClicked i)
  then show ?thesis by (auto simp: cancelQueued_def)
next
  case (RemoveClicked i)
  then show ?thesis by (auto simp: removeImage_def Let_def)
next
  case ClearAllClicked
  then show ?thesis by (simp add: clearAll_def)
next
  case (CompressionSettled nextId out)
  then show ?thesis by (cases out) (simp_all add: settle.simps finally_block_def)
next
  case (RecompressionSettled sel out)
  then show ?thesis by (cases out) (simp_all add: recompressSettled.simps Let_def)
qed (use assms in \<open>simp_all add: togglePause_def recompressSelectedImage_def
       split: option.splits\<close>)

lemma event_order:
  assumes inv: "before A B (queue s)" and ne: "e \<noteq> DeferredProcessQueue"
    and sp: "A \<in> set (queue (handle e s))"
  shows "before A B (queue (handle e s))"
proof -
  from handle_queue_cases [OF ne, of s] consider
      new where "queue (handle e s) = queue s @ new"
    | x where "queue (handle e s) = filter (\<lambda>y. y \<noteq> x) (queue s)"
    | "queue (handle e s) = []" by blast
  then show ?thesis
  proof cases
    case 1
    then show ?thesis using inv by (simp add: before_append)
  next
    case 2
    with sp have "A \<noteq> x" by auto
    with inv show ?thesis unfolding 2 by (rule before_filter)
  next
    case 3
    with sp show ?thesis by simp
  qed
qed

lemma admission_of_synced:
  assumes "refs_synced s"
  shows "admission_of s = [] \<and> queue (processQueue s) = queue s \<or>
         queue s \<noteq> [] \<and> admission_of s = [hd (queue s)] \<and>
         queue (processQueue s) = drop 1 (queue s)"
  using assms
  by (simp add: admission_of_def next_admitted_synced processQueue_queue)

lemma tick_order:
  assumes inv: "before A B L \<or> (B \<notin> set L \<and> before A B (queue s))"
    and kp: "spares A t s"
    and ds: "t = Ev DeferredProcessQueue \<longrightarrow> refs_synced s"
  shows "before A B (L @ tick_log t s) \<or>
         (B \<notin> set (L @ tick_log t s) \<and> before A B (queue (tick_step t s)))"
proof (cases t)
  case Render
  let ?s1 = "selection_effect (sync_refs s)"
  show ?thesis
  proof (cases "admits s")
    case True
    then have q: "queue s \<noteq> []" by (auto simp: admits_def)
    have l: "tick_log t s = [hd (queue s)]"
      using True Render by (simp add: admission_of_def admits_next)
    have c: "queue (tick_step t s) = drop 1 (queue s)"
      using True Render by (simp add: commit_queue)
    show ?thesis unfolding l c using inv q by (rule before_head)
  next
    case False
    then show ?thesis using Render inv by (simp add: commit_queue)
  qed
next
  case (Ev e)
  show ?thesis
  proof (cases "e = DeferredProcessQueue")
    case True
    then have rs: "refs_synced s" using ds Ev by simp
    have l: "tick_log t s = admission_of s" and c: "tick_step t s = processQueue s"
      using True Ev by simp_all
    from admission_of_synced [OF rs] show ?thesis
    proof
      assume "admission_of s = [] \<and> queue (processQueue s) = queue s"
      then show ?thesis unfolding l c using inv by simp
    next
      assume h: "queue s \<noteq> [] \<and> admission_of s = [hd (queue s)] \<and>
         queue (processQueue s) = drop 1 (queue s)"
      then have q: "queue s \<noteq> []" and l2: "admission_of s = [hd (queue s)]"
        and c2: "queue (processQueue s) = drop 1 (queue s)" by blast+
      show ?thesis unfolding l c l2 c2 using inv q by (rule before_head)
    qed
  next
    case False
    then have l: "tick_log t s = []" using Ev by (cases e) simp_all
    from inv show ?thesis
    proof
      assume "before A B L"
      then show ?thesis by (simp add: l)
    next
      assume h: "B \<notin> set L \<and> before A B (queue s)"
      then have "A \<in> set (queue s)" using before_mem by blast
      with kp l Ev have "A \<in> set (queue (handle e s))" by (simp add: spares_def)
      with h False have "before A B (queue (handle e s))" by (simp add: event_order)
      then show ?thesis using h l Ev by simp
    qed
  qed
qed

lemma trace_order:
  assumes "before A B L \<or> (B \<notin> set L \<and> before A B (queue s))"
    and "kept A ts s" and "deferred_in_step ts s"
  shows "before A B (L @ trace_log ts s) \<or>
         (B \<notin> set (L @ trace_log ts s) \<and> before A B (queue (trace ts s)))"
  using assms
proof (induction ts arbitrary: s L)
  case Nil
  then show ?case by simp
next
  case (Cons t ts)
  from Cons.prems have kp: "spares A t s" and kps: "kept A ts (tick_step t s)"
    and ds: "t = Ev DeferredProcessQueue \<longrightarrow> refs_synced s"
    and dss: "deferred_in_step ts (tick_step t s)" by simp_all
  have "before A B (L @ tick_log t s) \<or>
         (B \<notin> set (L @ tick_log t s) \<and> before A B (queue (tick_step t s)))"
    using Cons.prems(1) kp ds by (rule tick_order)
  from Cons.IH [OF this kps dss] show ?case by simp
qed

lemma tick_log_admits:
  assumes "x \<in> set (tick_log t s)" and "t = Ev DeferredProcessQueue \<longrightarrow> refs_synced s"
  shows "queue s \<noteq> [] \<and> x = hd (queue s) \<and> queue (tick_step t s) = tl (queue s) \<and>
         (\<forall>img \<in> set (images (tick_step t s)). img_id img = x \<longrightarrow> status img = Compressing)"
proof (cases t)
  case Render
  let ?s1 = "selection_effect (sync_refs s)"
  from assms(1) Render have ad: "admits s" by (simp add: Let_def split: if_splits)
  then have na: "next_admitted ?s1 = Some (hd (queue s))" by (rule admits_next)
  from assms(1) Render ad have x: "x = hd (queue s)" by (simp add: admission_of_def na)
  have q: "queue s \<noteq> []" using ad by (auto simp: admits_def)
  have cq: "queue (tick_step t s) = tl (queue s)"
    using Render ad by (simp add: commit_queue drop_Suc)
  have c: "tick_step t s = processQueue ?s1" using Render ad by (simp add: commit_admit)
  have "\<forall>img \<in> set (images (processQueue ?s1)). img_id img = x \<longrightarrow> status img = Compressing"
    using na x processQueue_admitted_status by blast
  then have "\<forall>img \<in> set (images (tick_step t s)). img_id img = x \<longrightarrow> status img = Compressing"
    by (simp only: c)
  then show ?thesis using q x cq by blast
next
  case (Ev e)
  with assms(1) have e: "e = DeferredProcessQueue" by (cases e) simp_all
  then have rs: "refs_synced s" using assms(2) Ev by simp
  from assms(1) Ev e obtain na: "next_admitted s = Some x"
    by (auto simp: admission_of_def split: option.splits)
  then have q: "queue s \<noteq> []" and x: "x = hd (queue s)"
    by (simp_all add: next_admitted_synced [OF rs] split: if_splits)
  have "\<forall>img \<in> set (images (processQueue s)). img_id img = x \<longrightarrow> status img = Compressing"
    using na processQueue_admitted_status by blast
  then show ?thesis using q x na Ev e by (simp add: processQueue_queue drop_Suc)
qed

lemma tick_log_complete:
  assumes "tick_log t s = []" and "t = Render \<or> t = Ev DeferredProcessQueue"
  shows "images (tick_step t s) = images s \<and> queue (tick_step t s) = queue s \<and>
         active (tick_step t s) = active s"
proof (rule disjE [OF assms(2)])
  assume t: "t = Render"
  have "\<not> admits s"
  proof
    assume ad: "admits s"
    then have "next_admitted (selection_effect (sync_refs s)) = Some (hd (queue s))"
      by (rule admits_next)
    with assms(1) t ad show False by (simp add: admission_of_def)
  qed
  then show ?thesis using t by (simp add: commit_no_admit)
next
  assume t: "t = Ev DeferredProcessQueue"
  with assms(1) have "next_admitted s = None"
    by (simp add: admission_of_def split: option.splits)
  then show ?thesis using t by (simp add: processQueue_none)
qed

text \<open>
  C4 (as amended). The scheduler admits in the order of the pending list. If \<open>A\<close>
  stands ahead of \<open>B\<close> in the pending list, then along every trace in which \<open>A\<close> leaves
  the pending list only by being admitted and every deferred call finds the refs equal
  to the state, \<open>B\<close> is admitted only after \<open>A\<close> has been. Each such admission, by the
  trigger effect or by a deferred call, takes the head of the pending list, removes it
  from the list and makes it \<open>Compressing\<close>; a render or a deferred call that admits
  nothing changes no job and not the list. A re-run is no admission.
\<close>

theorem admission_order:
  "(before A B (queue s) \<and> kept A ts s \<and> deferred_in_step ts s \<and>
    B \<in> set (trace_log ts s) \<longrightarrow> before A B (trace_log ts s)) \<and>
   ((t = Ev DeferredProcessQueue \<longrightarrow> refs_synced s1) \<and> x \<in> set (tick_log t s1) \<longrightarrow>
      queue s1 \<noteq> [] \<and> x = hd (queue s1) \<and> queue (tick_step t s1) = tl (queue s1) \<and>
      (img \<in> set (images (tick_step t s1)) \<and> img_id img = x \<longrightarrow> status img = Compressing)) \<and>
   ((t2 = Render \<or> t2 = Ev DeferredProcessQueue) \<and> tick_log t2 s2 = [] \<longrightarrow>
      images (tick_step t2 s2) = images s2 \<and> queue (tick_step t2 s2) = queue s2)"
proof (intro conjI impI)
  assume h: "before A B (queue s) \<and> kept A ts s \<and> deferred_in_step ts s \<and>
    B \<in> set (trace_log ts s)"
  then have b: "before A B (queue s)" and k: "kept A ts s"
    and d: "deferred_in_step ts s" and m: "B \<in> set (trace_log ts s)" by blast+
  have "before A B ([] @ trace_log ts s) \<or>
         (B \<notin> set ([] @ trace_log ts s) \<and> before A B (queue (trace ts s)))"
    using _ k d by (rule trace_order) (simp add: b)
  with m show "before A B (trace_log ts s)" by simp
next
  assume h: "(t = Ev DeferredProcessQueue \<longrightarrow> refs_synced s1) \<and> x \<in> set (tick_log t s1)"
  then have a: "x \<in> set (tick_log t s1)" and r: "t = Ev DeferredProcessQueue \<longrightarrow> refs_synced s1"
    by blast+
  note adm = tick_log_admits [OF a r]
  from adm show "queue s1 \<noteq> []" by blast
  from adm show "x = hd (queue s1)" by blast
  from adm show "queue (tick_step t s1) = tl (queue s1)" by blast
  {
    assume "img \<in> set (images (tick_step t s1)) \<and> img_id img = x"
    with adm show "status img = Compressing" by blast
  }
next
  assume h: "(t2 = Render \<or> t2 = Ev DeferredProcessQueue) \<and> tick_log t2 s2 = []"
  then have "images (tick_step t2 s2) = images s2 \<and> queue (tick_step t2 s2) = queue s2 \<and>
         active (tick_step t2 s2) = active s2"
    by (intro tick_log_complete) blast+
  then show "images (tick_step t2 s2) = images s2" and "queue (tick_step t2 s2) = queue s2"
    by blast+
qed

theorem admission_order_witness:
  "before ''a'' ''ax'' (queue ex_batch) \<and> kept ''a'' ex_admit ex_batch \<and>
   deferred_in_step ex_admit ex_batch \<and>
   trace_log ex_admit ex_batch = [''a'', ''ax'', ''axx''] \<and>
   before ''a'' ''ax'' (trace_log ex_admit ex_batch) \<and>
   queue (trace ex_admit ex_batch) = [''axxx''] \<and>
   tick_log Render ex_batch = [''a''] \<and>
   queue (tick_step Render ex_batch) = [''ax'', ''axx'', ''axxx'', ''axxxx''] \<and>
   map img_id (images (tick_step Render ex_batch)) = [''a'', ''ax'', ''axx'', ''axxx'', ''axxxx''] \<and>
   status (hd (images (tick_step Render ex_batch))) = Compressing \<and>
   tick_log Render (trace ex_admit ex_batch) = [] \<and>
   images (tick_step Render (trace ex_admit ex_batch)) = images (trace ex_admit ex_batch)"
proof -
  have q: "queue ex_batch = [''a'', ''ax'', ''axx'', ''axxx'', ''axxxx'']"
    by (simp add: ex_batch_def model_defs ex_defs)
  have a: "before ''a'' ''ax'' (queue ex_batch)" by (simp add: q before_def)
  have b: "kept ''a'' ex_admit ex_batch"
    by (simp add: ex_admit_def ex_batch_def spares_def trace_defs model_defs ex_defs)
  have c: "deferred_in_step ex_admit ex_batch"
    by (simp add: ex_admit_def ex_batch_def refs_synced_def trace_defs model_defs ex_defs)
  have d: "trace_log ex_admit ex_batch = [''a'', ''ax'', ''axx'']"
    by (simp add: ex_admit_def ex_batch_def trace_defs model_defs ex_defs)
  have d2: "queue (trace ex_admit ex_batch) = [''axxx'']"
    by (simp add: ex_admit_def ex_batch_def trace_defs model_defs ex_defs)
  have e: "tick_log Render ex_batch = [''a'']"
    by (simp add: ex_batch_def trace_defs model_defs ex_defs)
  have f: "map img_id (images (tick_step Render ex_batch))
             = [''a'', ''ax'', ''axx'', ''axxx'', ''axxxx'']"
    by (simp add: ex_batch_def trace_defs model_defs ex_defs)
  have g: "tick_log Render (trace ex_admit ex_batch) = []"
    by (simp add: ex_admit_def ex_batch_def trace_defs model_defs ex_defs)
  from f obtain i1 rest where im: "images (tick_step Render ex_batch) = i1 # rest"
    and i1: "img_id i1 = ''a''" by auto
  note ord = admission_order [where A = "''a''" and B = "''ax''" and s = ex_batch
      and ts = ex_admit and t = Render and ?s1.0 = ex_batch and x = "''a''" and img = i1
      and ?t2.0 = Render and ?s2.0 = "trace ex_admit ex_batch"]
  have h1: "before ''a'' ''ax'' (queue ex_batch) \<and> kept ''a'' ex_admit ex_batch \<and>
      deferred_in_step ex_admit ex_batch \<and> ''ax'' \<in> set (trace_log ex_admit ex_batch)"
    using a b c d by simp
  have r1: "before ''a'' ''ax'' (trace_log ex_admit ex_batch)" using ord h1 by blast
  have h2: "(Render = Ev DeferredProcessQueue \<longrightarrow> refs_synced ex_batch) \<and>
      ''a'' \<in> set (tick_log Render ex_batch)"
    using e by simp
  have r2: "queue (tick_step Render ex_batch) = tl (queue ex_batch)"
    using ord h2 by blast
  have h3: "i1 \<in> set (images (tick_step Render ex_batch)) \<and> img_id i1 = ''a''"
    using im i1 by simp
  have r3: "status i1 = Compressing" using ord h2 h3 by blast
  have h4: "(Render = Render \<or> Render = Ev DeferredProcessQueue) \<and>
      tick_log Render (trace ex_admit ex_batch) = []"
    using g by simp
  have r4: "images (tick_step Render (trace ex_admit ex_batch)) = images (trace ex_admit ex_batch)"
    using ord h4 by blast
  from r2 q have r2': "queue (tick_step Render ex_batch) = [''ax'', ''axx'', ''axxx'', ''axxxx'']"
    by simp
  from r3 im have r3': "status (hd (images (tick_step Render ex_batch))) = Compressing" by simp
  from a b c d r1 d2 e r2' f r3' g r4 show ?thesis by (intro conjI)
qed

text \<open>
  The claim as stated fails: a re-run makes its job \<open>Compressing\<close> wherever the job
  stands in the pending list. With \<open>axxx\<close> ahead of \<open>axxxx\<close>, both pending and the three
  places taken, a re-run of \<open>axxxx\<close> makes it \<open>Compressing\<close> while \<open>axxx\<close> is \<open>Queued\<close>;
  the scheduler has admitted neither.
\<close>

theorem rerun_overtakes_counterexample:
  "queue (trace ex_overtake initial_state) = [''axxx'', ''axxxx''] \<and>
   before ''axxx'' ''axxxx'' (queue (trace ex_overtake initial_state)) \<and>
   trace_log ex_overtake initial_state = [''a'', ''ax'', ''axx''] \<and>
   active (trace ex_overtake initial_state) = [''a'', ''ax'', ''axx''] \<and>
   map img_id (images (trace ex_overtake initial_state))
     = [''a'', ''ax'', ''axx'', ''axxx'', ''axxxx''] \<and>
   map status (images (trace ex_overtake initial_state))
     = [Compressing, Compressing, Compressing, Queued, Compressing]"
  by (simp add: ex_overtake_def before_def trace_defs model_defs ex_defs)

section \<open>Result data and status\<close>

lemma list_all_map_update:
  assumes "list_all P xs" and "\<And>x. P x \<Longrightarrow> P (f x)"
  shows "list_all P (map (\<lambda>x. if c x then f x else x) xs)"
  using assms by (induction xs) auto

lemma commit_images:
  "images (commit s) =
     (if admits s then images (processQueue (selection_effect (sync_refs s))) else images s)"
  by (simp add: commit_no_admit commit_admit)

lemma list_all_map_update_if:
  assumes "list_all P xs" and "\<And>x. P x \<Longrightarrow> c x \<Longrightarrow> Q (f x)" and "\<And>x. P x \<Longrightarrow> Q x"
  shows "list_all Q (map (\<lambda>x. if c x then f x else x) xs)"
  using assms by (induction xs) auto

lemma result_consistent_status:
  "result_consistent ok img \<Longrightarrow> st \<noteq> Compressed \<Longrightarrow> st \<noteq> Queued \<Longrightarrow> st \<noteq> Idle \<Longrightarrow>
   result_consistent ok (img\<lparr>status := st\<rparr>)"
  by (simp add: result_consistent_def split: option.splits)

lemma statuses_consistent:
  assumes "list_all (result_consistent ok) xs"
    and "st \<noteq> Compressed" and "st \<noteq> Queued" and "st \<noteq> Idle"
  shows "list_all (result_consistent ok) (map (\<lambda>img. if c img then img\<lparr>status := st\<rparr> else img) xs)"
  using assms(1)
  by (rule list_all_map_update_if) (simp_all add: result_consistent_status assms(2-4))

lemma processQueue_consistent:
  "list_all (result_consistent ok) (images s) \<Longrightarrow>
   list_all (result_consistent ok) (images (processQueue s))"
  by (cases "next_admitted s") (simp_all add: processQueue_images statuses_consistent)

lemma commit_consistent:
  "list_all (result_consistent ok) (images s) \<Longrightarrow>
   list_all (result_consistent ok) (images (commit s))"
  by (simp add: commit_images processQueue_consistent)

lemma handleFiles_consistent:
  "list_all (result_consistent ok) (images s) \<Longrightarrow>
   list_all (result_consistent ok) (images (handleFiles rnd url files s))"
  by (auto simp: handleFiles_def Let_def list_all_iff newImage_def result_consistent_def
           split: option.splits)

lemma settle_consistent:
  assumes "list_all (result_consistent ok) (images s)"
    and "well_formed (Ev (CompressionSettled nextId out))"
  shows "list_all (result_consistent (ok @ success_of (Ev (CompressionSettled nextId out))))
           (images (settle nextId out s))"
proof (cases out)
  case (Resolved r)
  then have sz: "r_compressedSize r = fsize (r_compressedFile r)"
    using assms(2) by (simp add: sized_def)
  show ?thesis unfolding Resolved settle_resolved_images using assms(1)
    by (rule list_all_map_update_if)
       (simp_all add: result_consistent_def sz split: option.splits)
next
  case Rejected
  show ?thesis unfolding Rejected settle_rejected_images using assms(1)
    by (simp add: statuses_consistent)
qed

lemma recompressSettled_consistent:
  assumes "list_all (result_consistent ok) (images s)"
    and "well_formed (Ev (RecompressionSettled sel out))"
  shows "list_all (result_consistent (ok @ success_of (Ev (RecompressionSettled sel out))))
           (images (recompressSettled sel out s))"
proof (cases out)
  case (Resolved r)
  then have sz: "r_compressedSize r = fsize (r_compressedFile r)"
    using assms(2) by (simp add: sized_def)
  let ?u = "sel\<lparr>compressedFile := Some (r_compressedFile r),
                 compressedPreview := r_compressedPreview r,
                 compressionRatio := r_compressionRatio r,
                 name := r_name r,
                 compressedSize := r_compressedSize r,
                 status := Compressed\<rparr>"
  have im: "images (recompressSettled sel (Resolved r) s)
          = map (\<lambda>img. if img_id img = img_id sel then (\<lambda>_. ?u) img else img) (images s)"
    by (simp add: recompressSettled.simps Let_def)
  show ?thesis unfolding Resolved im using assms(1)
    by (rule list_all_map_update_if)
       (simp_all add: result_consistent_def sz split: option.splits)
next
  case Rejected
  show ?thesis unfolding Rejected using assms(1)
    by (simp add: recompressSettled.simps statuses_consistent)
qed

lemma handle_consistent:
  assumes "list_all (result_consistent ok) (images s)" and "well_formed (Ev e)"
  shows "list_all (result_consistent (ok @ success_of (Ev e))) (images (handle e s))"
proof (cases e)
  case (FilesChosen rnd url files)
  then show ?thesis using assms(1) by (simp add: handleFiles_consistent)
next
  case (CancelClicked i)
  then show ?thesis using assms(1) by (simp add: cancelQueued_def statuses_consistent)
next
  case (RemoveClicked i)
  then show ?thesis using assms(1) by (simp add: removeImage_def Let_def list_all_iff)
next
  case RecompressClicked
  then show ?thesis using assms(1)
    by (simp add: recompressSelectedImage_def statuses_consistent split: option.splits)
next
  case (CompressionSettled nextId out)
  then show ?thesis using assms settle_consistent by simp
next
  case (RecompressionSettled sel out)
  then show ?thesis using assms recompressSettled_consistent by simp
next
  case DeferredProcessQueue
  then show ?thesis using assms(1) by (simp add: processQueue_consistent)
qed (use assms(1) in \<open>simp_all add: togglePause_def clearAll_def\<close>)

lemma tick_consistent:
  assumes "list_all (result_consistent ok) (images s)" and "well_formed t"
  shows "list_all (result_consistent (ok @ success_of t)) (images (tick_step t s))"
proof (cases t)
  case (Ev e)
  then show ?thesis using assms handle_consistent by simp
next
  case Render
  then show ?thesis using assms(1) by (simp add: commit_consistent)
qed

lemma trace_consistent:
  "list_all well_formed ts \<Longrightarrow>
   list_all (result_consistent (succeeded ts)) (images (trace ts initial_state))"
proof (induction ts rule: rev_induct)
  case Nil
  show ?case by (simp add: initial_state_def)
next
  case (snoc t ts)
  then have "list_all (result_consistent (succeeded ts)) (images (trace ts initial_state))"
    and "well_formed t" by simp_all
  then have "list_all (result_consistent (succeeded ts @ success_of t))
               (images (tick_step t (trace ts initial_state)))"
    by (rule tick_consistent)
  then show ?case by (simp add: trace_snoc succeeded_def)
qed

lemma compressImage_sized: "sized (compressImage file compressed url newName)"
  by (simp add: sized_def compressImage_def)

text \<open>
  C7 (as amended). In every state that a trace reaches from the initial state, the
  results being such that their output size is the size of their output file: a job
  that is \<open>Compressed\<close> has a compressed file; a job that is \<open>Queued\<close> has none; a job
  without a compressed file has the output size 0; and a job with a compressed file has
  that file's size as output size and is a job of which a compression, scheduled or
  re-run, has succeeded. In the other direction result data is not tied to
  \<open>Compressed\<close>: starting a re-run, a failed re-run and a failed scheduled compression
  change the status and leave the compressed file and the output size as they were.
\<close>

theorem result_data_invariant:
  "(list_all well_formed ts \<and> img \<in> set (images (trace ts initial_state)) \<longrightarrow>
      (status img = Compressed \<longrightarrow> compressedFile img \<noteq> None) \<and>
      (status img = Queued \<longrightarrow> compressedFile img = None) \<and>
      (compressedFile img = None \<longrightarrow> compressedSize img = 0) \<and>
      (\<forall>f. compressedFile img = Some f \<longrightarrow>
           compressedSize img = fsize f \<and> img_id img \<in> set (succeeded ts))) \<and>
   map compressedFile (images (recompressSelectedImage s)) = map compressedFile (images s) \<and>
   map compressedSize (images (recompressSelectedImage s)) = map compressedSize (images s) \<and>
   map compressedFile (images (recompressSettled sel Rejected s))
     = map compressedFile (images s) \<and>
   map compressedSize (images (recompressSettled sel Rejected s))
     = map compressedSize (images s) \<and>
   map compressedFile (images (settle nextId Rejected s)) = map compressedFile (images s) \<and>
   map compressedSize (images (settle nextId Rejected s)) = map compressedSize (images s)"
proof (intro conjI impI allI)
  assume h: "list_all well_formed ts \<and> img \<in> set (images (trace ts initial_state))"
  then have "list_all (result_consistent (succeeded ts)) (images (trace ts initial_state))"
    by (simp add: trace_consistent)
  with h have rc: "result_consistent (succeeded ts) img" by (simp add: list_all_iff)
  {
    assume "status img = Compressed"
    with rc show "compressedFile img \<noteq> None"
      by (auto simp: result_consistent_def split: option.splits)
  }
  {
    assume "status img = Queued"
    with rc show "compressedFile img = None"
      by (auto simp: result_consistent_def split: option.splits)
  }
  {
    assume "compressedFile img = None"
    with rc show "compressedSize img = 0" by (simp add: result_consistent_def)
  }
  {
    fix f assume "compressedFile img = Some f"
    with rc show "compressedSize img = fsize f" and "img_id img \<in> set (succeeded ts)"
      by (simp_all add: result_consistent_def)
  }
next
  show "map compressedFile (images (recompressSelectedImage s)) = map compressedFile (images s)"
    by (simp add: recompressSelectedImage_def comp_def split: option.splits)
  show "map compressedSize (images (recompressSelectedImage s)) = map compressedSize (images s)"
    by (simp add: recompressSelectedImage_def comp_def split: option.splits)
  show "map compressedFile (images (recompressSettled sel Rejected s))
          = map compressedFile (images s)"
    by (simp add: recompressSettled.simps comp_def)
  show "map compressedSize (images (recompressSettled sel Rejected s))
          = map compressedSize (images s)"
    by (simp add: recompressSettled.simps comp_def)
  show "map compressedFile (images (settle nextId Rejected s)) = map compressedFile (images s)"
    by (simp add: settle_rejected_images comp_def)
  show "map compressedSize (images (settle nextId Rejected s)) = map compressedSize (images s)"
    by (simp add: settle_rejected_images comp_def)
qed

theorem result_data_invariant_witness:
  "list_all well_formed ex_compressed \<and>
   map status (images (trace ex_compressed initial_state)) = [Compressed] \<and>
   map compressedFile (images (trace ex_compressed initial_state)) = [Some ex_out] \<and>
   map compressedSize (images (trace ex_compressed initial_state)) = [fsize ex_out] \<and>
   map img_id (images (trace ex_compressed initial_state)) = succeeded ex_compressed \<and>
   list_all well_formed ex_uploaded \<and>
   map status (images (trace ex_uploaded initial_state)) = [Queued] \<and>
   map compressedFile (images (trace ex_uploaded initial_state)) = [None] \<and>
   map compressedSize (images (trace ex_uploaded initial_state)) = [0]"
proof -
  have w1: "list_all well_formed ex_compressed"
    by (simp add: ex_compressed_def sized_def ex_defs)
  have st1: "map status (images (trace ex_compressed initial_state)) = [Compressed]"
    by (simp add: ex_compressed_def trace_defs model_defs ex_defs)
  have cf1: "map compressedFile (images (trace ex_compressed initial_state)) = [Some ex_out]"
    by (simp add: ex_compressed_def trace_defs model_defs ex_defs)
  have id1: "map img_id (images (trace ex_compressed initial_state)) = [''a'']"
    by (simp add: ex_compressed_def trace_defs model_defs ex_defs)
  have su: "succeeded ex_compressed = [''a'']"
    by (simp add: ex_compressed_def succeeded_def)
  from st1 obtain i1 where im1: "images (trace ex_compressed initial_state) = [i1]"
    and s1: "status i1 = Compressed" by auto
  from cf1 im1 have f1: "compressedFile i1 = Some ex_out" by simp
  note inv1 = result_data_invariant [where ts = ex_compressed and img = i1
      and s = initial_state and sel = ex_snapshot and nextId = "''a''"]
  have h1: "list_all well_formed ex_compressed \<and>
            i1 \<in> set (images (trace ex_compressed initial_state))"
    using w1 im1 by simp
  have r1: "compressedFile i1 \<noteq> None" using inv1 h1 s1 by blast
  have r2: "compressedSize i1 = fsize ex_out \<and> img_id i1 \<in> set (succeeded ex_compressed)"
    using inv1 h1 f1 by blast
  have w2: "list_all well_formed ex_uploaded" by (simp add: ex_uploaded_def)
  have st2: "map status (images (trace ex_uploaded initial_state)) = [Queued]"
    by (simp add: ex_uploaded_def trace_defs model_defs ex_defs)
  from st2 obtain i2 where im2: "images (trace ex_uploaded initial_state) = [i2]"
    and s2: "status i2 = Queued" by auto
  note inv2 = result_data_invariant [where ts = ex_uploaded and img = i2
      and s = initial_state and sel = ex_snapshot and nextId = "''a''"]
  have h2: "list_all well_formed ex_uploaded \<and>
            i2 \<in> set (images (trace ex_uploaded initial_state))"
    using w2 im2 by simp
  have r3: "compressedFile i2 = None" using inv2 h2 s2 by blast
  have r4: "compressedSize i2 = 0" using inv2 h2 r3 by blast
  from w1 st1 cf1 r2 im1 id1 su w2 st2 r3 r4 im2 show ?thesis by simp
qed

text \<open>
  The claim as stated fails, in a run (and so in a trace, lemma \<open>run_is_trace\<close>): after
  a job is compressed and its re-run is started, the record holds the old compressed
  file and output size under the status \<open>Compressing\<close>, and under \<open>Error\<close> once that
  re-run has failed.
\<close>

theorem stale_result_counterexample:
  "map status (images (run ex_stale initial_state)) = [Compressing] \<and>
   map compressedFile (images (run ex_stale initial_state)) = [Some ex_out] \<and>
   map compressedSize (images (run ex_stale initial_state)) = [250000] \<and>
   selectedImage (run ex_stale initial_state) = Some ex_snapshot \<and>
   map status (images (run ex_stale_failed initial_state)) = [Error] \<and>
   map compressedFile (images (run ex_stale_failed initial_state)) = [Some ex_out] \<and>
   map compressedSize (images (run ex_stale_failed initial_state)) = [250000]"
  by (simp add: model_defs ex_defs)

section \<open>A re-run and the concurrency budget\<close>

text \<open>
  C2 (as amended). A re-run bypasses the pending queue and the concurrency accounting
  alike: \<open>recompressSelectedImage\<close> sets the selected job to \<open>Compressing\<close> without
  reading or changing the pending list, the active list or the refs, and its
  continuation leaves the pending list and the active list as they are; the job is no
  occupant of the budget.
\<close>

theorem rerun_bypasses_accounting:
  "queue (recompressSelectedImage s) = queue s \<and>
   active (recompressSelectedImage s) = active s \<and>
   queueRef (recompressSelectedImage s) = queueRef s \<and>
   activeRef (recompressSelectedImage s) = activeRef s \<and>
   pausedRef (recompressSelectedImage s) = pausedRef s \<and>
   (selectedImage s = Some sel \<and> img \<in> set (images (recompressSelectedImage s)) \<and>
    img_id img = img_id sel \<longrightarrow> status img = Compressing) \<and>
   queue (recompressSettled sel out s) = queue s \<and>
   active (recompressSettled sel out s) = active s \<and>
   queueRef (recompressSettled sel out s) = queueRef s \<and>
   activeRef (recompressSettled sel out s) = activeRef s \<and>
   pausedRef (recompressSettled sel out s) = pausedRef s"
proof (intro conjI impI)
  assume "selectedImage s = Some sel \<and> img \<in> set (images (recompressSelectedImage s)) \<and>
    img_id img = img_id sel"
  then show "status img = Compressing"
    by (auto simp: recompressSelectedImage_def)
next
  show "queue (recompressSettled sel out s) = queue s"
    by (cases out) (simp_all add: recompressSettled.simps Let_def)
  show "queueRef (recompressSettled sel out s) = queueRef s"
    by (cases out) (simp_all add: recompressSettled.simps Let_def)
  show "activeRef (recompressSettled sel out s) = activeRef s"
    by (cases out) (simp_all add: recompressSettled.simps Let_def)
  show "pausedRef (recompressSettled sel out s) = pausedRef s"
    by (cases out) (simp_all add: recompressSettled.simps Let_def)
qed (simp_all add: recompressSelectedImage_def split: option.splits)

theorem rerun_bypasses_accounting_witness:
  "selectedImage (run ex_done initial_state) = Some ex_snapshot \<and>
   map img_id (images (recompressSelectedImage (run ex_done initial_state)))
     = [img_id ex_snapshot] \<and>
   status (hd (images (recompressSelectedImage (run ex_done initial_state)))) = Compressing"
proof -
  have a: "selectedImage (run ex_done initial_state) = Some ex_snapshot"
    by (simp add: model_defs ex_defs)
  have b: "map img_id (images (recompressSelectedImage (run ex_done initial_state)))
             = [img_id ex_snapshot]"
    by (simp add: model_defs ex_defs)
  then obtain img where im: "images (recompressSelectedImage (run ex_done initial_state)) = [img]"
    and idn: "img_id img = img_id ex_snapshot" by auto
  have "selectedImage (run ex_done initial_state) = Some ex_snapshot \<and>
        img \<in> set (images (recompressSelectedImage (run ex_done initial_state))) \<and>
        img_id img = img_id ex_snapshot"
    using a im idn by simp
  then have "status img = Compressing"
    using rerun_bypasses_accounting
      [where s = "run ex_done initial_state" and sel = ex_snapshot and img = img
         and out = Rejected] by blast
  then show ?thesis using a b im by simp
qed

text \<open>
  The claim as stated fails: with three jobs admitted from the queue, a re-run of a
  fourth job makes four jobs \<open>Compressing\<close> at once while the active list holds three.
\<close>

theorem rerun_counterexample:
  "selectedImage (run ex_rerun initial_state) = Some ex_snapshot \<and>
   map img_id (images (run ex_rerun initial_state)) = [''a'', ''b'', ''bx'', ''bxx''] \<and>
   active (run ex_rerun initial_state) = [''b'', ''bx'', ''bxx''] \<and>
   compressingCount (run ex_rerun initial_state) = 4 \<and>
   length (active (run ex_rerun initial_state)) = 3 \<and> MAX_CONCURRENT = 3"
  by (simp add: compressingCount_def model_defs ex_defs)

section \<open>The processed counter\<close>

lemma settle_completed:
  "completed (settle nextId (Resolved r) s) = completed s + 1"
  "completed (settle nextId Rejected s) = completed s"
  by (simp_all add: settle.simps finally_block_def)

lemma handleFiles_completed [simp]: "completed (handleFiles rnd url files s) = completed s"
  by (simp add: handleFiles_def Let_def split: option.splits)

lemma recompressSettled_completed [simp]:
  "completed (recompressSettled sel out s) = completed s"
  by (cases out) (simp_all add: recompressSettled.simps Let_def)

lemma handle_completed:
  assumes "e \<noteq> ClearAllClicked"
  shows "completed (handle e s) = (if settled_ok e then completed s + 1 else completed s)"
proof (cases e)
  case (CompressionSettled nextId out)
  then show ?thesis by (cases out) (simp_all add: settle_completed)
qed (use assms in \<open>simp_all add: togglePause_def cancelQueued_def removeImage_def Let_def
       recompressSelectedImage_def split: option.splits\<close>)

lemma render_loop_completed [simp]: "completed (render_loop n s) = completed s"
  by (induction n arbitrary: s) simp_all

lemma stabilize_completed [simp]: "completed (stabilize s) = completed s"
  by (simp add: stabilize_def del: render_loop.simps)

lemma run_completed:
  "ClearAllClicked \<notin> set evs \<Longrightarrow>
   completed (run evs s) = completed s + length (filter settled_ok evs)"
proof (induction evs rule: rev_induct)
  case Nil
  show ?case by (simp add: run_def)
next
  case (snoc e evs)
  then have "e \<noteq> ClearAllClicked" and "ClearAllClicked \<notin> set evs" by auto
  then show ?case using snoc.IH
    by (simp add: run_snoc step_def handle_completed)
qed

lemma length_filter_mono:
  "(\<And>x. P x \<Longrightarrow> Q x) \<Longrightarrow> length (filter P xs) \<le> length (filter Q xs)"
  by (induction xs) auto

lemma settled_counted:
  "length (filter (\<lambda>img. status img = Compressed \<or> status img = Error) (images s))
     \<le> totalToProcess s"
  unfolding totalToProcess_def by (rule length_filter_mono) auto

lemma settle_rejected_status:
  assumes "img \<in> set (images (settle nextId Rejected s))" and "img_id img = nextId"
  shows "status img = Error"
proof -
  from assms(1) obtain i where "i \<in> set (images s)"
    and eq: "img = (if img_id i = nextId then i\<lparr>status := Error\<rparr> else i)"
    unfolding settle_rejected_images by auto
  show ?thesis
  proof (cases "img_id i = nextId")
    case True
    with eq show ?thesis by simp
  next
    case False
    with eq assms(2) show ?thesis by simp
  qed
qed

lemma settle_resolved_status:
  assumes "img \<in> set (images (settle nextId (Resolved r) s))" and "img_id img = nextId"
  shows "status img = Compressed"
proof -
  from assms(1) obtain image where "image \<in> set (images s)"
    and eq: "img = (if img_id image = nextId
                   then image\<lparr>compressedFile := Some (r_compressedFile r),
                              compressedPreview := r_compressedPreview r,
                              compressionRatio := r_compressionRatio r,
                              name := r_name r,
                              compressedSize := r_compressedSize r,
                              status := Compressed\<rparr>
                   else image)"
    unfolding settle_resolved_images by auto
  show ?thesis
  proof (cases "img_id image = nextId")
    case True
    with eq show ?thesis by simp
  next
    case False
    with eq assms(2) show ?thesis by simp
  qed
qed

lemma recompressSettled_resolved_status:
  assumes "img \<in> set (images (recompressSettled sel (Resolved r) s))"
    and "img_id img = img_id sel"
  shows "status img = Compressed"
proof -
  let ?u = "sel\<lparr>compressedFile := Some (r_compressedFile r),
                 compressedPreview := r_compressedPreview r,
                 compressionRatio := r_compressionRatio r,
                 name := r_name r,
                 compressedSize := r_compressedSize r,
                 status := Compressed\<rparr>"
  have "images (recompressSettled sel (Resolved r) s)
          = map (\<lambda>img. if img_id img = img_id sel then ?u else img) (images s)"
    by (simp add: recompressSettled.simps Let_def)
  with assms(1) obtain i where "i \<in> set (images s)"
    and eq: "img = (if img_id i = img_id sel then ?u else i)"
    by auto
  show ?thesis
  proof (cases "img_id i = img_id sel")
    case True
    with eq show ?thesis by simp
  next
    case False
    with eq assms(2) show ?thesis by simp
  qed
qed

text \<open>
  C8 (as amended). The counter \<open>completed\<close> goes up by exactly one when a compression
  that the scheduler admitted settles with success, the job then being \<open>Compressed\<close>,
  and stays as it is when it settles with a failure, the job then being \<open>Error\<close>. A
  re-run that succeeds makes its job \<open>Compressed\<close> and leaves the counter as it is.
  Along any sequence of events without a clear-all the counter therefore grows by the
  number of successful scheduler settles, \<open>n\<close> after \<open>n\<close> successes and \<open>m\<close> failures,
  while every job that is \<open>Compressed\<close> or \<open>Error\<close> is counted by the denominator
  \<open>totalToProcess\<close>.
\<close>

theorem completed_counts_successes:
  "completed (settle nextId (Resolved r) s) = completed s + 1 \<and>
   completed (settle nextId Rejected s) = completed s \<and>
   (img \<in> set (images (settle nextId (Resolved r) s)) \<and> img_id img = nextId
      \<longrightarrow> status img = Compressed) \<and>
   (img \<in> set (images (settle nextId Rejected s)) \<and> img_id img = nextId
      \<longrightarrow> status img = Error) \<and>
   completed (recompressSettled sel out s) = completed s \<and>
   (img \<in> set (images (recompressSettled sel (Resolved r) s)) \<and> img_id img = img_id sel
      \<longrightarrow> status img = Compressed) \<and>
   (ClearAllClicked \<notin> set evs \<longrightarrow>
      completed (run evs s) = completed s + length (filter settled_ok evs)) \<and>
   length (filter (\<lambda>img. status img = Compressed \<or> status img = Error) (images s))
     \<le> totalToProcess s"
proof (intro conjI impI)
  show "completed (recompressSettled sel out s) = completed s"
    by (rule recompressSettled_completed)
next
  assume "img \<in> set (images (recompressSettled sel (Resolved r) s)) \<and>
    img_id img = img_id sel"
  then show "status img = Compressed" using recompressSettled_resolved_status by blast
next
  show "completed (settle nextId (Resolved r) s) = completed s + 1"
    by (rule settle_completed)
  show "completed (settle nextId Rejected s) = completed s"
    by (rule settle_completed)
  show "length (filter (\<lambda>img. status img = Compressed \<or> status img = Error) (images s))
     \<le> totalToProcess s"
    by (rule settled_counted)
next
  assume "img \<in> set (images (settle nextId (Resolved r) s)) \<and> img_id img = nextId"
  then show "status img = Compressed" using settle_resolved_status by blast
next
  assume "img \<in> set (images (settle nextId Rejected s)) \<and> img_id img = nextId"
  then show "status img = Error" using settle_rejected_status by blast
next
  assume "ClearAllClicked \<notin> set evs"
  then show "completed (run evs s) = completed s + length (filter settled_ok evs)"
    by (rule run_completed)
qed

theorem completed_counts_successes_witness:
  "ClearAllClicked \<notin> set ex_mixed \<and>
   map status (images (run ex_mixed initial_state)) = [Compressed, Error] \<and>
   completed (run ex_mixed initial_state) = 1 \<and>
   totalToProcess (run ex_mixed initial_state) = 2"
proof -
  have a: "ClearAllClicked \<notin> set ex_mixed" by (simp add: ex_mixed_def)
  have b: "map status (images (run ex_mixed initial_state)) = [Compressed, Error]"
    by (simp add: ex_mixed_def model_defs ex_defs)
  have c: "length (filter settled_ok ex_mixed) = 1" by (simp add: ex_mixed_def)
  have d: "completed initial_state = 0" by (simp add: initial_state_def)
  have "completed (run ex_mixed initial_state)
          = completed initial_state + length (filter settled_ok ex_mixed)"
    using completed_counts_successes [where evs = ex_mixed and s = initial_state
        and nextId = "''a''" and r = ex_result and img = ex_snapshot and sel = ex_snapshot
        and out = Rejected] a by blast
  then have e: "completed (run ex_mixed initial_state) = 1" using c d by simp
  have f: "totalToProcess (run ex_mixed initial_state) = 2"
    by (simp add: totalToProcess_def ex_mixed_def model_defs ex_defs)
  from a b e f show ?thesis by (intro conjI)
qed

text \<open>
  The claim as stated fails: a job whose scheduled compression failed and whose re-run
  then succeeded has reached \<open>Compressed\<close>, and the counter is still zero.
\<close>

theorem rerun_not_counted_counterexample:
  "map status (images (run ex_error_rerun initial_state)) = [Compressing] \<and>
   selectedImage (run ex_error_rerun initial_state) = Some ex_snapshot \<and>
   completed (run ex_error_rerun initial_state) = 0 \<and>
   map status (images (run ex_rerun_after_error initial_state)) = [Compressed] \<and>
   completed (run ex_rerun_after_error initial_state) = 0 \<and>
   totalToProcess (run ex_rerun_after_error initial_state) = 1"
  by (simp add: totalToProcess_def model_defs ex_defs Let_def)

section \<open>Removing a job\<close>

lemma filter_commute: "filter P (filter Q xs) = filter Q (filter P xs)"
  by (induction xs) auto

lemma removeImage_total:
  assumes "img \<in> set (images s)" and "img_id img = ident"
    and "status img \<noteq> Idle" and "status img \<noteq> Cancelled"
  shows "totalToProcess (removeImage ident s) < totalToProcess s"
proof -
  let ?P = "\<lambda>img. status img \<noteq> Idle \<and> status img \<noteq> Cancelled"
  let ?Q = "\<lambda>img. img_id img \<noteq> ident"
  have "img \<in> set (filter ?P (images s))" using assms by simp
  moreover have "\<not> ?Q img" using assms(2) by simp
  ultimately have "length (filter ?Q (filter ?P (images s))) < length (filter ?P (images s))"
    by (rule length_filter_less)
  moreover have "filter ?P (filter ?Q (images s)) = filter ?Q (filter ?P (images s))"
    by (rule filter_commute)
  ultimately show ?thesis
    by (simp add: totalToProcess_def removeImage_def Let_def)
qed

text \<open>
  C10. \<open>removeImage\<close> changes the job list by dropping the records with the given
  identifier, the pending list by dropping that identifier, and the selection when the
  removed job was selected. Every other record, the active list, the flags, the refs
  and the counter \<open>completed\<close> are left as they were: removing a \<open>Compressed\<close> job makes
  the denominator \<open>totalToProcess\<close> smaller and leaves \<open>completed\<close> unchanged.
\<close>

theorem removeImage_frame:
  "completed (removeImage ident s) = completed s \<and>
   active (removeImage ident s) = active s \<and>
   paused (removeImage ident s) = paused s \<and>
   queueRef (removeImage ident s) = queueRef s \<and>
   activeRef (removeImage ident s) = activeRef s \<and>
   pausedRef (removeImage ident s) = pausedRef s \<and>
   isCompressing (removeImage ident s) = isCompressing s \<and>
   isRecompressing (removeImage ident s) = isRecompressing s \<and>
   toasts (removeImage ident s) = toasts s \<and>
   images (removeImage ident s) = filter (\<lambda>img. img_id img \<noteq> ident) (images s) \<and>
   queue (removeImage ident s) = filter (\<lambda>qid. qid \<noteq> ident) (queue s) \<and>
   (selectedImage s = Some sel \<and> img_id sel \<noteq> ident \<longrightarrow>
      selectedImage (removeImage ident s) = Some sel) \<and>
   (img \<in> set (images s) \<and> img_id img \<noteq> ident \<longrightarrow> img \<in> set (images (removeImage ident s))) \<and>
   (img \<in> set (images s) \<and> img_id img = ident \<and> status img = Compressed \<longrightarrow>
      totalToProcess (removeImage ident s) < totalToProcess s \<and>
      completed (removeImage ident s) = completed s) \<and>
   completed (step (RemoveClicked i) s) = completed s"
proof (intro conjI impI)
  show "completed (step (RemoveClicked i) s) = completed s"
    by (simp add: step_def removeImage_def Let_def)
next
  assume "img \<in> set (images s) \<and> img_id img = ident \<and> status img = Compressed"
  then show "totalToProcess (removeImage ident s) < totalToProcess s"
    using removeImage_total [of img s ident] by simp
qed (simp_all add: removeImage_def Let_def)

theorem removeImage_frame_witness:
  "map status (images (run ex_done initial_state)) = [Compressed] \<and>
   map img_id (images (run ex_done initial_state)) = [''a''] \<and>
   completed (run ex_done initial_state) = 1 \<and>
   totalToProcess (run ex_done initial_state) = 1 \<and>
   completed (removeImage ''a'' (run ex_done initial_state)) = 1 \<and>
   totalToProcess (removeImage ''a'' (run ex_done initial_state)) = 0"
proof -
  have a: "map status (images (run ex_done initial_state)) = [Compressed]"
    by (simp add: model_defs ex_defs)
  have b: "map img_id (images (run ex_done initial_state)) = [''a'']"
    by (simp add: model_defs ex_defs)
  have c: "completed (run ex_done initial_state) = 1"
    by (simp add: model_defs ex_defs)
  have d: "totalToProcess (run ex_done initial_state) = 1"
    by (simp add: totalToProcess_def model_defs ex_defs)
  from a b obtain img where im: "images (run ex_done initial_state) = [img]"
    and st: "status img = Compressed" and idn: "img_id img = ''a''" by auto
  have h: "img \<in> set (images (run ex_done initial_state)) \<and> img_id img = ''a'' \<and>
           status img = Compressed"
    using im st idn by simp
  have "totalToProcess (removeImage ''a'' (run ex_done initial_state))
          < totalToProcess (run ex_done initial_state) \<and>
        completed (removeImage ''a'' (run ex_done initial_state))
          = completed (run ex_done initial_state)"
    using removeImage_frame [where ident = "''a''" and s = "run ex_done initial_state"
        and img = img and sel = ex_snapshot] h by blast
  then have "totalToProcess (removeImage ''a'' (run ex_done initial_state)) = 0"
    and "completed (removeImage ''a'' (run ex_done initial_state)) = 1"
    using c d by simp_all
  with a b c d show ?thesis by (intro conjI)
qed

section \<open>Pause and resume\<close>

lemma paused_not_admits: "paused s \<Longrightarrow> \<not> admits s"
  by (simp add: admits_def)

lemma pausedRef_processQueue: "pausedRef s \<Longrightarrow> processQueue s = s"
  by (simp add: processQueue_none next_admitted_def)

lemma paused_admission_effect: "paused s \<Longrightarrow> admission_effect s = s"
  by (simp add: admission_effect_def paused_not_admits)

lemma render_loop_paused:
  "paused s \<Longrightarrow>
   images (render_loop n s) = images s \<and> queue (render_loop n s) = queue s \<and>
   active (render_loop n s) = active s \<and> paused (render_loop n s)"
proof (induction n arbitrary: s)
  case 0
  then show ?case by simp
next
  case (Suc n)
  have c: "commit s = selection_effect (sync_refs s)"
    using Suc.prems by (simp add: commit_no_admit paused_not_admits)
  then have "paused (commit s)" using Suc.prems by simp
  from Suc.IH [OF this] show ?case by (simp add: c)
qed

lemma stabilize_paused:
  "paused s \<Longrightarrow>
   images (stabilize s) = images s \<and> queue (stabilize s) = queue s \<and>
   active (stabilize s) = active s \<and> paused (stabilize s)"
  unfolding stabilize_def by (rule render_loop_paused)

lemma settle_paused [simp]: "paused (settle nextId out s) = paused s"
  by (cases out) (simp_all add: settle.simps finally_block_def)

lemma processQueue_ids [simp]: "img_id ` set (images (processQueue s)) = img_id ` set (images s)"
proof (cases "next_admitted s")
  case None
  then show ?thesis by (simp add: processQueue_none)
next
  case (Some y)
  have "map img_id (images (processQueue s)) = map img_id (images s)"
    using Some by (simp add: processQueue_images comp_def if_distrib [of img_id] cong: if_cong)
  then have "set (map img_id (images (processQueue s))) = set (map img_id (images s))"
    by simp
  then show ?thesis by (simp only: set_map)
qed

lemma processQueue_admitted:
  assumes "admitted x s"
  shows "admitted x (processQueue s)"
proof (cases "next_admitted s")
  case None
  then show ?thesis using assms by (simp add: processQueue_none)
next
  case (Some y)
  from assms have xa: "x \<in> set (active s)" and xi: "x \<in> img_id ` set (images s)"
    and st: "list_all (\<lambda>img. img_id img = x \<longrightarrow> status img = Compressing) (images s)"
    by (simp_all add: admitted_def)
  have a: "x \<in> set (active (processQueue s))"
  proof (cases "y \<in> img_id ` set (images s)")
    case True
    then show ?thesis using Some xa by (simp add: processQueue_active)
  next
    case False
    with xi have "x \<noteq> y" by blast
    then show ?thesis using Some xa False by (simp add: processQueue_active)
  qed
  have b: "list_all (\<lambda>img. img_id img = x \<longrightarrow> status img = Compressing)
             (images (processQueue s))"
    using Some st by (simp add: processQueue_images list_all_map_update)
  from a b xi show ?thesis by (simp add: admitted_def)
qed

lemma effects_admitted [simp]: "admitted x (selection_effect (sync_refs s)) = admitted x s"
  by (simp add: admitted_def)

lemma commit_admitted: "admitted x s \<Longrightarrow> admitted x (commit s)"
  by (cases "admits s") (simp_all add: commit_no_admit commit_admit processQueue_admitted)

lemma render_loop_admitted: "admitted x s \<Longrightarrow> admitted x (render_loop n s)"
  by (induction n arbitrary: s) (simp_all add: commit_admitted)

lemma render_loop_not_paused: "paused (render_loop n s) = paused s"
  by (induction n arbitrary: s) simp_all

lemma admit_sets_status:
  "list_all (\<lambda>img. img_id img = x \<longrightarrow> status img = Compressing)
     (map (\<lambda>img. if img_id img = x then img\<lparr>status := Compressing\<rparr> else img) xs)"
  by (induction xs) simp_all

lemma resume_admits_head:
  assumes "paused s" and "queue s = x # rest" and "length (active s) < MAX_CONCURRENT"
    and "x \<in> img_id ` set (images s)"
  shows "admitted x (step PauseClicked s)" and "\<not> paused (step PauseClicked s)"
proof -
  have ne: "images s \<noteq> []" using assms(4) by auto
  let ?t = "togglePause s"
  have h: "handle PauseClicked s = ?t" using ne by simp
  have ad: "admits ?t" using assms by (simp add: admits_def togglePause_def)
  let ?v = "selection_effect (sync_refs ?t)"
  have na: "next_admitted ?v = Some x"
    using admits_next [OF ad] assms(2) by (simp add: togglePause_def)
  have xi: "x \<in> img_id ` set (images ?v)" using assms(4) by (simp add: togglePause_def)
  have "active (processQueue ?v) = active ?v @ [x]"
    using na xi by (simp add: processQueue_active)
  moreover have "list_all (\<lambda>img. img_id img = x \<longrightarrow> status img = Compressing)
                   (images (processQueue ?v))"
    using na by (simp add: processQueue_images admit_sets_status)
  ultimately have "admitted x (processQueue ?v)"
    using xi by (simp add: admitted_def)
  then have "admitted x (commit ?t)" using ad by (simp add: commit_admit)
  then have "admitted x (render_loop (length (queue ?t)) (commit ?t))"
    by (rule render_loop_admitted)
  then show "admitted x (step PauseClicked s)"
    unfolding step_def h stabilize_def by simp
  show "\<not> paused (step PauseClicked s)"
    unfolding step_def h stabilize_def
    using assms(1) by (simp add: render_loop_not_paused togglePause_def del: render_loop.simps)
qed

lemma settle_status:
  assumes "img \<in> set (images (settle nextId out s))" and "img_id img = nextId"
  shows "status img = (case out of Resolved r \<Rightarrow> Compressed | Rejected \<Rightarrow> Error)"
proof (cases out)
  case (Resolved r)
  then show ?thesis using assms settle_resolved_status [of img nextId r s] by simp
next
  case Rejected
  then show ?thesis using assms settle_rejected_status [of img nextId s] by simp
qed

lemma map_update_mem:
  assumes "y \<in> set (map (\<lambda>i. if c i then f i else i) xs)"
    and "\<And>i. \<not> P (f i)" and "P y"
  shows "y \<in> set xs"
proof -
  from assms(1) obtain i where i: "i \<in> set xs" and y: "y = (if c i then f i else i)"
    by auto
  show ?thesis
  proof (cases "c i")
    case True
    with y assms(2,3) show ?thesis by auto
  next
    case False
    with y i show ?thesis by simp
  qed
qed

lemma handleFiles_images_mem:
  assumes "img \<in> set (images (handleFiles rnd url files s))" and "status img = Compressing"
  shows "img \<in> set (images s)"
proof (cases files)
  case None
  then show ?thesis using assms by (simp add: handleFiles_def)
next
  case (Some fs)
  show ?thesis
  proof (rule ccontr)
    assume n: "img \<notin> set (images s)"
    with assms(1) Some have "img \<in> set (map (\<lambda>(k, file). newImage (rnd k) (url file) file)
        (enumerate 0 (filter (\<lambda>file. startsWith (ftype file) ''image/'') fs)))"
      by (auto simp: handleFiles_def Let_def split: if_splits)
    then have "status img = Queued" by (auto simp: newImage_def)
    with assms(2) show False by simp
  qed
qed

lemma handle_paused_no_start:
  assumes "pausedRef s" and "e \<noteq> RecompressClicked"
    and "img \<in> set (images (handle e s))" and "status img = Compressing"
  shows "img \<in> set (images s)"
proof (cases e)
  case (FilesChosen rnd url files)
  then show ?thesis using assms(3,4) by (simp add: handleFiles_images_mem)
next
  case PauseClicked
  then show ?thesis using assms(3) by (simp add: togglePause_def split: if_splits)
next
  case (CancelClicked i)
  show ?thesis
  proof (cases "i < length (images s) \<and> status (images s ! i) = Queued")
    case True
    then have "img \<in> set (map (\<lambda>x. if img_id x = img_id (images s ! i)
                                      then x\<lparr>status := Cancelled\<rparr> else x) (images s))"
      using assms(3) CancelClicked by (simp add: cancelQueued_def)
    then show ?thesis
      by (rule map_update_mem [where P = "\<lambda>x. status x = Compressing"])
         (simp_all add: assms(4))
  next
    case False
    then show ?thesis using assms(3) CancelClicked by auto
  qed
next
  case (RemoveClicked i)
  then show ?thesis using assms(3) by (auto simp: removeImage_def Let_def split: if_splits)
next
  case (ImageClicked i)
  then show ?thesis using assms(3) by (simp split: if_splits)
next
  case RecompressClicked
  then show ?thesis using assms(2) by simp
next
  case ClearAllClicked
  then show ?thesis using assms(3) by (simp add: clearAll_def split: if_splits)
next
  case (CompressionSettled nextId out)
  show ?thesis
  proof (cases out)
    case (Resolved r)
    then have "img \<in> set (images (settle nextId (Resolved r) s))"
      using assms(3) CompressionSettled by simp
    then show ?thesis unfolding settle_resolved_images
      by (rule map_update_mem [where P = "\<lambda>x. status x = Compressing"])
         (simp_all add: assms(4))
  next
    case Rejected
    then have "img \<in> set (images (settle nextId Rejected s))"
      using assms(3) CompressionSettled by simp
    then show ?thesis unfolding settle_rejected_images
      by (rule map_update_mem [where P = "\<lambda>x. status x = Compressing"])
         (simp_all add: assms(4))
  qed
next
  case (RecompressionSettled sel out)
  show ?thesis
  proof (cases out)
    case (Resolved r)
    let ?u = "sel\<lparr>compressedFile := Some (r_compressedFile r),
                 compressedPreview := r_compressedPreview r,
                 compressionRatio := r_compressionRatio r,
                 name := r_name r,
                 compressedSize := r_compressedSize r,
                 status := Compressed\<rparr>"
    have "images (recompressSettled sel (Resolved r) s)
          = map (\<lambda>x. if img_id x = img_id sel then (\<lambda>_. ?u) x else x) (images s)"
      by (simp add: recompressSettled.simps Let_def)
    then have "img \<in> set (map (\<lambda>x. if img_id x = img_id sel then (\<lambda>_. ?u) x else x) (images s))"
      using assms(3) RecompressionSettled Resolved by simp
    then show ?thesis
      by (rule map_update_mem [where P = "\<lambda>x. status x = Compressing"])
         (simp_all add: assms(4))
  next
    case Rejected
    then have "img \<in> set (map (\<lambda>x. if img_id x = img_id sel
                                      then x\<lparr>status := Error\<rparr> else x) (images s))"
      using assms(3) RecompressionSettled by (simp add: recompressSettled.simps)
    then show ?thesis
      by (rule map_update_mem [where P = "\<lambda>x. status x = Compressing"])
         (simp_all add: assms(4))
  qed
next
  case UploadFlagTimeout
  then show ?thesis using assms(3) by simp
next
  case DeferredProcessQueue
  then show ?thesis using assms(1,3) by (simp add: pausedRef_processQueue)
qed

lemma handle_paused:
  "e \<noteq> PauseClicked \<Longrightarrow> paused (handle e s) = paused s"
proof (cases e)
  case (CompressionSettled nextId out)
  then show ?thesis by simp
next
  case (RecompressionSettled sel out)
  then show ?thesis by (cases out) (simp_all add: recompressSettled.simps Let_def)
qed (simp_all add: handleFiles_def Let_def cancelQueued_def removeImage_def
       recompressSelectedImage_def clearAll_def split: option.splits)

lemma step_paused_no_start:
  assumes "paused s" and "refs_synced s" and "e \<noteq> RecompressClicked" and "e \<noteq> PauseClicked"
    and "img \<in> set (images (step e s))" and "status img = Compressing"
  shows "img \<in> set (images s)"
proof -
  have "paused (handle e s)" using assms(1,4) by (simp add: handle_paused)
  then have "images (step e s) = images (handle e s)"
    using stabilize_paused by (simp add: step_def)
  with assms(5) have "img \<in> set (images (handle e s))" by simp
  moreover have "pausedRef s" using assms(1,2) by (simp add: refs_synced_def)
  ultimately show ?thesis using assms(3,6) handle_paused_no_start by blast
qed

text \<open>
  C5 (as amended). While paused the scheduler admits nothing: \<open>processQueue\<close> returns at
  once, the trigger effect does not fire, and the render cycle leaves the job list, the
  pending list and the active list as they are, also with pending jobs and free
  capacity. No event other than a re-run request, or the resume itself, makes a job
  \<open>Compressing\<close>: every record that is \<open>Compressing\<close> after the step was so before. A
  compression that is in flight still settles, to \<open>Compressed\<close> or \<open>Error\<close>, and leaves
  the active list. Clearing the flag admits the head of the pending list in the same
  step. (A re-run request is not held back by the flag, see the counterexample.)
\<close>

theorem paused_blocks_admission:
  "(pausedRef s \<longrightarrow> processQueue s = s) \<and>
   (paused s \<longrightarrow>
      admission_effect s = s \<and> images (stabilize s) = images s \<and>
      queue (stabilize s) = queue s \<and> active (stabilize s) = active s) \<and>
   (paused s \<and> refs_synced s \<and> e \<noteq> RecompressClicked \<and> e \<noteq> PauseClicked \<and>
    job \<in> set (images (step e s)) \<and> status job = Compressing \<longrightarrow>
      job \<in> set (images s)) \<and>
   (paused s \<and> img \<in> set (images (step (CompressionSettled nextId out) s)) \<and>
    img_id img = nextId \<longrightarrow>
      status img = (case out of Resolved r \<Rightarrow> Compressed | Rejected \<Rightarrow> Error) \<and>
      nextId \<notin> set (active (step (CompressionSettled nextId out) s))) \<and>
   (paused s \<and> queue s = x # rest \<and> length (active s) < MAX_CONCURRENT \<and>
    x \<in> img_id ` set (images s) \<longrightarrow>
      \<not> paused (step PauseClicked s) \<and> admitted x (step PauseClicked s))"
proof (intro conjI impI)
  assume "pausedRef s"
  then show "processQueue s = s" by (rule pausedRef_processQueue)
next
  assume p: "paused s"
  then show "admission_effect s = s" by (rule paused_admission_effect)
  from p show "images (stabilize s) = images s" "queue (stabilize s) = queue s"
    "active (stabilize s) = active s"
    using stabilize_paused by blast+
next
  assume "paused s \<and> refs_synced s \<and> e \<noteq> RecompressClicked \<and> e \<noteq> PauseClicked \<and>
    job \<in> set (images (step e s)) \<and> status job = Compressing"
  then show "job \<in> set (images s)" using step_paused_no_start by blast
next
  assume h: "paused s \<and> img \<in> set (images (step (CompressionSettled nextId out) s)) \<and>
    img_id img = nextId"
  then have p: "paused (settle nextId out s)" by simp
  have im: "images (step (CompressionSettled nextId out) s) = images (settle nextId out s)"
    and ac: "active (step (CompressionSettled nextId out) s) = active (settle nextId out s)"
    using stabilize_paused [OF p] by (simp_all add: step_def)
  from h im have "img \<in> set (images (settle nextId out s))" and "img_id img = nextId"
    by simp_all
  then show "status img = (case out of Resolved r \<Rightarrow> Compressed | Rejected \<Rightarrow> Error)"
    by (rule settle_status)
  show "nextId \<notin> set (active (step (CompressionSettled nextId out) s))"
    by (simp add: ac settle_active)
next
  assume h: "paused s \<and> queue s = x # rest \<and> length (active s) < MAX_CONCURRENT \<and>
    x \<in> img_id ` set (images s)"
  then show "\<not> paused (step PauseClicked s)" using resume_admits_head(2) by blast
  from h show "admitted x (step PauseClicked s)" using resume_admits_head(1) by blast
qed

theorem paused_blocks_admission_witness:
  "paused ex_paused_state \<and> queue ex_paused_state = [''b''] \<and>
   length (active ex_paused_state) < MAX_CONCURRENT \<and>
   ''b'' \<in> img_id ` set (images ex_paused_state) \<and>
   \<not> paused (step PauseClicked ex_paused_state) \<and>
   admitted ''b'' (step PauseClicked ex_paused_state)"
proof -
  have a: "paused ex_paused_state" by (simp add: model_defs ex_defs)
  have b: "queue ex_paused_state = [''b'']" by (simp add: model_defs ex_defs)
  have c: "length (active ex_paused_state) < MAX_CONCURRENT"
    by (simp add: model_defs ex_defs)
  have d: "''b'' \<in> img_id ` set (images ex_paused_state)"
    by (simp add: model_defs ex_defs)
  have h: "paused ex_paused_state \<and> queue ex_paused_state = ''b'' # [] \<and>
           length (active ex_paused_state) < MAX_CONCURRENT \<and>
           ''b'' \<in> img_id ` set (images ex_paused_state)"
    using a b c d by (intro conjI)
  have "\<not> paused (step PauseClicked ex_paused_state) \<and>
        admitted ''b'' (step PauseClicked ex_paused_state)"
    using paused_blocks_admission [where s = ex_paused_state and x = "''b''" and rest = "[]"
        and img = ex_snapshot and nextId = "''a''" and out = Rejected
        and e = UploadFlagTimeout and job = ex_snapshot] h by blast
  with a b c d show ?thesis by blast
qed

text \<open>
  The claim as stated fails: while paused, with a pending job and free capacity, a
  re-run request on the selected \<open>Queued\<close> job makes it \<open>Compressing\<close>.
\<close>

theorem paused_rerun_counterexample:
  "paused ex_paused_state \<and>
   map status (images ex_paused_state) = [Compressing, Queued] \<and>
   queue ex_paused_state = [''b''] \<and> length (active ex_paused_state) = 1 \<and>
   MAX_CONCURRENT = 3 \<and>
   paused (run ex_paused_rerun initial_state) \<and>
   selectedImage (run ex_paused_rerun initial_state) = Some ex_snapshot_b \<and>
   status ex_snapshot_b = Queued \<and>
   queue (run ex_paused_rerun initial_state) = [''b''] \<and>
   map status (images (run ex_paused_rerun initial_state)) = [Compressing, Compressing]"
  by (simp add: model_defs ex_defs)

section \<open>Cancelling a queued job\<close>



lemma effects_excluded [simp]: "excluded x (selection_effect (sync_refs s)) = excluded x s"
  by (simp add: excluded_def)




lemma settle_queue [simp]: "queue (settle nextId out s) = queue s"
  by (cases out) (simp_all add: settle.simps finally_block_def)

lemma recompressSettled_queue [simp]: "queue (recompressSettled sel out s) = queue s"
  by (cases out) (simp_all add: recompressSettled.simps Let_def)









section \<open>The rounding of a double operation\<close>

lemma bitlength_0 [simp]: "bitlength 0 = 0"
  by (simp add: bitlength.simps)

lemma bitlength_pos: "0 < n \<Longrightarrow> bitlength n = Suc (bitlength (n div 2))"
  by (subst bitlength.simps) simp

lemma bitlength_numeral [simp]:
  "bitlength (numeral k) = Suc (bitlength (numeral k div 2))"
  by (rule bitlength_pos) simp

lemma bitlength_1 [simp]: "bitlength (Suc 0) = 1"
  by (simp add: bitlength_pos)

lemma bitlength_upper: "n < 2 ^ bitlength n"
proof (induction n rule: less_induct)
  case (less n)
  show ?case
  proof (cases "n = 0")
    case True
    then show ?thesis by simp
  next
    case False
    then have "n div 2 < n" by simp
    then have "n div 2 < 2 ^ bitlength (n div 2)" by (rule less.IH)
    then have "n < 2 * 2 ^ bitlength (n div 2)" by linarith
    then show ?thesis using False by (simp add: bitlength_pos)
  qed
qed

lemma bitlength_lower: "0 < n \<Longrightarrow> 2 ^ (bitlength n - 1) \<le> n"
proof (induction n rule: less_induct)
  case (less n)
  show ?case
  proof (cases "n div 2 = 0")
    case True
    then have "n = 1" using less.prems by (simp add: div_eq_0_iff) 
    then show ?thesis by simp
  next
    case False
    then have p: "0 < n div 2" and l: "n div 2 < n" using less.prems by simp_all
    from less.IH [OF l p] have "2 ^ (bitlength (n div 2) - 1) \<le> n div 2" .
    moreover have "0 < bitlength (n div 2)" using p by (simp add: bitlength_pos)
    ultimately have "2 ^ bitlength (n div 2) \<le> 2 * (n div 2)"
      by (cases "bitlength (n div 2)") simp_all
    also have "\<dots> \<le> n" by simp
    finally show ?thesis using less.prems by (simp add: bitlength_pos)
  qed
qed

lemma exponent_lower_ge1:
  assumes "1 \<le> a"
  shows "power_int 2 (exponent a) \<le> a"
proof -
  let ?n = "nat \<lfloor>a\<rfloor>"
  have n: "0 < ?n" using assms by simp
  have "real (2 ^ (bitlength ?n - 1)) \<le> real ?n"
    using bitlength_lower [OF n] by (simp only: of_nat_le_iff)
  also have "\<dots> \<le> a" using assms by simp
  finally have le: "(2::real) ^ (bitlength ?n - 1) \<le> a" by simp
  have "bitlength ?n = Suc (bitlength (?n div 2))" using n by (rule bitlength_pos)
  then have e: "int (bitlength ?n) - 1 = int (bitlength ?n - 1)" by simp
  have "exponent a = int (bitlength ?n - 1)"
    using assms unfolding exponent_def e [symmetric] by simp
  then show ?thesis using le by (simp only: power_int_of_nat)
qed

lemma exponent_lower_lt1:
  assumes "0 < a" and "a < 1"
  shows "power_int 2 (exponent a) \<le> a"
proof -
  let ?n = "nat (\<lceil>1 / a\<rceil> - 1)"
  have c: "1 / a \<le> of_int \<lceil>1 / a\<rceil>" by (rule le_of_int_ceiling)
  have "1 < 1 / a" using assms by simp
  then have "of_int 1 < 1 / a" by simp
  then have "1 < \<lceil>1 / a\<rceil>" by (simp only: less_ceiling_iff)
  then have "0 \<le> \<lceil>1 / a\<rceil> - 1" by linarith
  then have i: "int ?n = \<lceil>1 / a\<rceil> - 1" by (simp only: nat_0_le)
  have "real ?n = of_int (int ?n)" by (simp only: of_int_of_nat_eq)
  also have "\<dots> = of_int (\<lceil>1 / a\<rceil> - 1)" by (simp only: i)
  finally have c2: "of_int \<lceil>1 / a\<rceil> = real ?n + 1" by (simp only: of_int_diff of_int_1)
  have "?n + 1 \<le> 2 ^ bitlength ?n" using bitlength_upper [of ?n] by linarith
  then have "real (?n + 1) \<le> real (2 ^ bitlength ?n)" by (simp only: of_nat_le_iff)
  then have "real ?n + 1 \<le> 2 ^ bitlength ?n" by simp
  with c c2 have "1 / a \<le> 2 ^ bitlength ?n" by linarith
  then have "1 \<le> 2 ^ bitlength ?n * a" using assms(1) by (simp add: field_simps)
  then have le: "1 / 2 ^ bitlength ?n \<le> a" by (simp add: field_simps)
  have "exponent a = - int (bitlength ?n)"
    using assms(2) unfolding exponent_def by simp
  then show ?thesis using le by (simp only: power_int_minus_divide power_int_of_nat)
qed

lemma exponent_lower: "0 < a \<Longrightarrow> power_int 2 (exponent a) \<le> a"
  using exponent_lower_ge1 [of a] exponent_lower_lt1 [of a] by linarith

lemma exponent_upper_ge1:
  assumes "1 \<le> a"
  shows "a < power_int 2 (exponent a + 1)"
proof -
  let ?n = "nat \<lfloor>a\<rfloor>"
  have n: "0 < ?n" using assms by simp
  have "?n + 1 \<le> 2 ^ bitlength ?n" using bitlength_upper [of ?n] by linarith
  then have "real (?n + 1) \<le> real (2 ^ bitlength ?n)" by (simp only: of_nat_le_iff)
  then have "real ?n + 1 \<le> 2 ^ bitlength ?n" by simp
  moreover have "a < real ?n + 1" using assms by linarith
  ultimately have lt: "a < 2 ^ bitlength ?n" by linarith
  have "exponent a + 1 = int (bitlength ?n)"
    using assms unfolding exponent_def by simp
  then show ?thesis using lt by (simp only: power_int_of_nat)
qed

lemma exponent_upper_lt1:
  assumes "0 < a" and "a < 1"
  shows "a < power_int 2 (exponent a + 1)"
proof -
  let ?n = "nat (\<lceil>1 / a\<rceil> - 1)"
  have "1 < 1 / a" using assms by simp
  then have "of_int 1 < 1 / a" by simp
  then have "1 < \<lceil>1 / a\<rceil>" by (simp only: less_ceiling_iff)
  then have n: "0 < ?n" by linarith
  have r: "real ?n < 1 / a" using n by linarith
  have "real (2 ^ (bitlength ?n - 1)) \<le> real ?n"
    using bitlength_lower [OF n] by (simp only: of_nat_le_iff)
  then have "(2::real) ^ (bitlength ?n - 1) \<le> real ?n" by (simp only: of_nat_power of_nat_numeral)
  then have "2 ^ (bitlength ?n - 1) < 1 / a" using r by (rule le_less_trans)
  then have "2 ^ (bitlength ?n - 1) * a < 1" using assms(1) by (simp add: field_simps)
  then have lt: "a < 1 / 2 ^ (bitlength ?n - 1)" by (simp add: field_simps)
  have "bitlength ?n = Suc (bitlength (?n div 2))" using n by (rule bitlength_pos)
  then have e: "int (bitlength ?n) - 1 = int (bitlength ?n - 1)" by simp
  have "exponent a + 1 = - int (bitlength ?n - 1)"
    using assms(2) unfolding exponent_def e [symmetric] by simp
  then show ?thesis using lt by (simp only: power_int_minus_divide power_int_of_nat)
qed

lemma exponent_upper: "0 < a \<Longrightarrow> a < power_int 2 (exponent a + 1)"
  using exponent_upper_ge1 [of a] exponent_upper_lt1 [of a] by linarith

lemma significand_range:
  assumes "0 < a"
  shows "2 ^ 52 \<le> a / power_int 2 (exponent a - 52) \<and>
         a / power_int 2 (exponent a - 52) < 2 ^ 53"
proof -
  define P :: real where "P = power_int 2 (exponent a)"
  have P: "0 < P" by (simp add: P_def)
  have lo: "P \<le> a" unfolding P_def using assms by (rule exponent_lower)
  have "a < power_int 2 (exponent a + 1)" using assms by (rule exponent_upper)
  then have hi: "a < P * 2" by (simp add: P_def power_int_add)
  have u: "power_int 2 (exponent a - 52) = P / 2 ^ 52"
    by (simp add: P_def power_int_diff)
  define m where "m = a / P"
  have e: "a / (P / 2 ^ 52) = m * 2 ^ 52" by (simp add: m_def)
  have "1 \<le> m" using lo P by (simp add: m_def)
  moreover have "m < 2" using hi P by (simp add: m_def field_simps)
  ultimately show ?thesis unfolding u e by simp
qed

lemma round_half_even_error: "\<bar>of_int (round_half_even m) - m\<bar> \<le> 1 / 2"
proof -
  have "of_int \<lfloor>m\<rfloor> \<le> m" "m < of_int \<lfloor>m\<rfloor> + 1" by linarith+
  then show ?thesis
    by (auto simp: round_half_even_def Let_def abs_le_iff)
qed

lemma fl_error: "\<bar>fl x - x\<bar> \<le> \<bar>x\<bar> / 2 ^ 53"
proof (cases "x = 0")
  case True
  then show ?thesis by (simp add: fl_def)
next
  case False
  define a where "a = \<bar>x\<bar>"
  define u :: real where "u = power_int 2 (exponent a - 52)"
  define k where "k = round_half_even (a / u)"
  have apos: "0 < a" using False by (simp add: a_def)
  have upos: "0 < u" by (simp add: u_def)
  have flx: "fl x = sgn x * (of_int k * u)"
    using False by (simp add: fl_def Let_def a_def u_def k_def)
  have x: "x = sgn x * a" by (simp add: a_def sgn_mult_abs)
  have "fl x - x = sgn x * (of_int k * u - a)"
    by (subst x, subst flx) (simp add: algebra_simps)
  then have "\<bar>fl x - x\<bar> = \<bar>of_int k * u - a\<bar>"
    using False by (simp add: abs_mult abs_sgn_eq)
  also have "of_int k * u - a = (of_int k - a / u) * u"
    using upos by (simp add: field_simps)
  also have "\<bar>\<dots>\<bar> = \<bar>of_int k - a / u\<bar> * u"
    using upos by (simp add: abs_mult)
  also have "\<dots> \<le> 1 / 2 * u"
    using round_half_even_error [of "a / u"] upos
    by (intro mult_right_mono) (simp_all add: k_def)
  also have "u = power_int 2 (exponent a) / 2 ^ 52"
    by (simp add: u_def power_int_diff)
  also have "1 / 2 * (power_int 2 (exponent a) / 2 ^ 52) = (power_int 2 (exponent a) :: real) / 2 ^ 53"
    by simp
  also have "\<dots> \<le> a / 2 ^ 53"
    using exponent_lower [OF apos] by (simp add: divide_right_mono)
  finally show ?thesis by (simp add: a_def)
qed

lemma fl_coarse: "\<bar>fl x - x\<bar> * 1000 \<le> \<bar>x\<bar>"
proof -
  have "\<bar>x\<bar> / 2 ^ 53 \<le> \<bar>x\<bar> / 1000"
    by (rule divide_left_mono) simp_all
  with fl_error [of x] have "\<bar>fl x - x\<bar> \<le> \<bar>x\<bar> / 1000" by linarith
  then show ?thesis by (simp add: field_simps)
qed

lemma fl_nonneg: "0 \<le> x \<Longrightarrow> x * 999 \<le> fl x * 1000 \<and> fl x * 1000 \<le> x * 1001"
  using fl_coarse [of x] by (auto simp: abs_if split: if_splits)

lemma fl_nonpos: "x \<le> 0 \<Longrightarrow> x * 1001 \<le> fl x * 1000 \<and> fl x * 1000 \<le> x * 999"
  using fl_coarse [of x] by (auto simp: abs_if split: if_splits)

lemma fl_near:
  assumes "- b \<le> x" and "x \<le> b"
  shows "- b \<le> (fl x - x) * 1000 \<and> (fl x - x) * 1000 \<le> b"
proof (cases "0 \<le> x")
  case True
  then have "x * 999 \<le> fl x * 1000" and "fl x * 1000 \<le> x * 1001"
    using fl_nonneg [of x] by simp_all
  then show ?thesis using assms by (simp add: algebra_simps)
next
  case False
  then have "x * 1001 \<le> fl x * 1000" and "fl x * 1000 \<le> x * 999"
    using fl_nonpos [of x] by simp_all
  then show ?thesis using assms by (simp add: algebra_simps)
qed

lemma percent_close:
  assumes "0 \<le> t" and "t \<le> 1"
  shows "\<bar>fl (fl (1 - fl t) * 100) - (1 - t) * 100\<bar> < 1"
proof -
  define q where "q = fl t"
  define d where "d = fl (1 - q)"
  define p where "p = fl (d * 100)"
  have "- 1 \<le> (q - t) * 1000 \<and> (q - t) * 1000 \<le> 1"
    unfolding q_def using assms by (intro fl_near) linarith+
  then have q1: "t * 1000 - 1 \<le> q * 1000" and q2: "q * 1000 \<le> t * 1000 + 1"
    by (simp_all add: algebra_simps)
  have "- 2 \<le> (d - (1 - q)) * 1000 \<and> (d - (1 - q)) * 1000 \<le> 2"
    unfolding d_def using q1 q2 assms by (intro fl_near) linarith+
  then have d1: "998 - q * 1000 \<le> d * 1000" and d2: "d * 1000 \<le> 1002 - q * 1000"
    by (simp_all add: algebra_simps)
  have "- 300 \<le> (p - d * 100) * 1000 \<and> (p - d * 100) * 1000 \<le> 300"
    unfolding p_def using q1 q2 d1 d2 assms by (intro fl_near) linarith+
  then have p1: "d * 100000 - 300 \<le> p * 1000" and p2: "p * 1000 \<le> d * 100000 + 300"
    by (simp_all add: algebra_simps)
  have "100 - t * 100 - 1 < p" and "p < 100 - t * 100 + 1"
    using q1 q2 d1 d2 p1 p2 by linarith+
  then have "\<bar>p - (1 - t) * 100\<bar> < 1" by (simp add: abs_less_iff algebra_simps)
  then show ?thesis unfolding p_def d_def q_def .
qed

lemma percent_nonpos:
  assumes "1 \<le> t"
  shows "fl (fl (1 - fl t) * 100) < 1 / 2"
proof -
  define q where "q = fl t"
  define d where "d = fl (1 - q)"
  define p where "p = fl (d * 100)"
  have "t * 999 \<le> q * 1000" unfolding q_def using fl_nonneg [of t] assms by simp
  then have a: "999 \<le> q * 1000" using assms by linarith
  have b: "d * 1000 \<le> 2"
  proof (cases "0 \<le> 1 - q")
    case True
    then have "fl (1 - q) * 1000 \<le> (1 - q) * 1001" using fl_nonneg [of "1 - q"] by simp
    then have "d * 1000 \<le> 1001 - q * 1001" unfolding d_def by (simp add: algebra_simps)
    then show ?thesis using a by linarith
  next
    case False
    then have "fl (1 - q) * 1000 \<le> (1 - q) * 999" using fl_nonpos [of "1 - q"] by simp
    then have "d * 1000 \<le> 999 - q * 999" unfolding d_def by (simp add: algebra_simps)
    then show ?thesis using False by linarith
  qed
  have "p * 10 \<le> 3"
  proof (cases "0 \<le> d * 100")
    case True
    then have "fl (d * 100) * 1000 \<le> d * 100 * 1001" using fl_nonneg [of "d * 100"] by simp
    then have "p * 1000 \<le> d * 100100" unfolding p_def by simp
    then show ?thesis using b by linarith
  next
    case False
    then have "fl (d * 100) * 1000 \<le> d * 100 * 999" using fl_nonpos [of "d * 100"] by simp
    then have "p * 1000 \<le> d * 99900" unfolding p_def by simp
    then show ?thesis using False by linarith
  qed
  then show ?thesis unfolding p_def d_def q_def by linarith
qed

lemma floor_close:
  fixes p x :: real
  assumes "\<bar>p - x\<bar> < 1"
  shows "\<bar>\<lfloor>p + 1 / 2\<rfloor> - \<lfloor>x + 1 / 2\<rfloor>\<bar> \<le> 1"
proof -
  have "\<lfloor>p + 1 / 2\<rfloor> \<le> \<lfloor>x + 1 / 2 + 1\<rfloor>" using assms by (intro floor_mono) linarith
  moreover have "\<lfloor>x + 1 / 2\<rfloor> \<le> \<lfloor>p + 1 / 2 + 1\<rfloor>" using assms by (intro floor_mono) linarith
  ultimately show ?thesis by linarith
qed

lemma ratio_within_one:
  assumes "0 < f"
  shows "\<exists>k. ratio c f = Num k \<and> \<bar>k - spec_ratio c f\<bar> \<le> 1 \<and> (f \<le> c \<longrightarrow> k = 0)"
proof -
  define t where "t = real c / real f"
  define p where "p = fl (fl (1 - fl t) * 100)"
  have r: "ratio c f = Num (max 0 (Math_round p))"
    using assms by (simp add: ratio_def p_def t_def)
  have s: "spec_ratio c f = max 0 \<lfloor>(1 - t) * 100 + 1 / 2\<rfloor>"
    by (simp add: spec_ratio_def round_def t_def)
  have t0: "0 \<le> t" by (simp add: t_def)
  show ?thesis
  proof (cases "f \<le> c")
    case True
    then have t1: "1 \<le> t" using assms by (simp add: t_def)
    then have "p < 1 / 2" unfolding p_def by (rule percent_nonpos)
    then have "Math_round p \<le> 0" by (simp add: Math_round_def floor_le_iff)
    moreover have "(1 - t) * 100 + 1 / 2 < 1" using t1 by simp
    then have "\<lfloor>(1 - t) * 100 + 1 / 2\<rfloor> \<le> 0" by (simp add: floor_le_iff)
    ultimately show ?thesis using r s by simp
  next
    case False
    then have "t \<le> 1" using assms by (simp add: t_def)
    with t0 have "\<bar>p - (1 - t) * 100\<bar> < 1" unfolding p_def by (rule percent_close)
    then have "\<bar>Math_round p - \<lfloor>(1 - t) * 100 + 1 / 2\<rfloor>\<bar> \<le> 1"
      unfolding Math_round_def by (rule floor_close)
    then have "\<bar>max 0 (Math_round p) - max 0 \<lfloor>(1 - t) * 100 + 1 / 2\<rfloor>\<bar> \<le> 1"
      by linarith
    then show ?thesis using r s False by simp
  qed
qed

section \<open>The compression ratio\<close>

lemmas fl_eval = fl_def exponent_def round_half_even_def Let_def

lemma ratio_example: "ratio 250000 1000000 = Num 75"
  by (simp add: ratio_def Math_round_def fl_eval)

lemma settle_resolved_record:
  assumes "img \<in> set (images (settle nextId (Resolved r) s))" and "img_id img = nextId"
  shows "compressionRatio img = r_compressionRatio r \<and> compressedSize img = r_compressedSize r \<and>
         status img = Compressed"
proof -
  from assms(1) obtain image where "image \<in> set (images s)"
    and eq: "img = (if img_id image = nextId
                   then image\<lparr>compressedFile := Some (r_compressedFile r),
                              compressedPreview := r_compressedPreview r,
                              compressionRatio := r_compressionRatio r,
                              name := r_name r,
                              compressedSize := r_compressedSize r,
                              status := Compressed\<rparr>
                   else image)"
    unfolding settle_resolved_images by auto
  show ?thesis
  proof (cases "img_id image = nextId")
    case True
    with eq show ?thesis by simp
  next
    case False
    with eq assms(2) show ?thesis by simp
  qed
qed

lemma recompressSettled_resolved_record:
  assumes "img \<in> set (images (recompressSettled sel (Resolved r) s))"
    and "img_id img = img_id sel"
  shows "compressionRatio img = r_compressionRatio r \<and> compressedSize img = r_compressedSize r \<and>
         status img = Compressed \<and> originalFile img = originalFile sel"
proof -
  let ?u = "sel\<lparr>compressedFile := Some (r_compressedFile r),
                 compressedPreview := r_compressedPreview r,
                 compressionRatio := r_compressionRatio r,
                 name := r_name r,
                 compressedSize := r_compressedSize r,
                 status := Compressed\<rparr>"
  have "images (recompressSettled sel (Resolved r) s)
          = map (\<lambda>img. if img_id img = img_id sel then ?u else img) (images s)"
    by (simp add: recompressSettled.simps Let_def)
  with assms(1) obtain image where "image \<in> set (images s)"
    and eq: "img = (if img_id image = img_id sel then ?u else image)"
    by auto
  show ?thesis
  proof (cases "img_id image = img_id sel")
    case True
    with eq show ?thesis by simp
  next
    case False
    with eq assms(2) show ?thesis by simp
  qed
qed

text \<open>
  C9 (as amended). When a compression of a job's original file, of size
  \<open>inputSize > 0\<close>, succeeds with an output of size \<open>outputSize\<close>, be it the compression
  that the scheduler started or a re-run, the job's record becomes \<open>Compressed\<close>, holds
  \<open>outputSize\<close>, and holds as ratio the value of
  \<open>max(0, round((1 - outputSize/inputSize) * 100))\<close> as double arithmetic computes it.
  That value is within one of the exact one, it is 0 when the output is not smaller
  than the input, and for 1,000,000 and 250,000 bytes it is 75.
\<close>

theorem stored_ratio:
  "(img \<in> set (images (settle nextId
        (Resolved (compressImage (originalFile img) compressed url newName)) s)) \<and>
    img_id img = nextId \<or>
    img \<in> set (images (recompressSettled sel
        (Resolved (compressImage (originalFile sel) compressed url newName)) s)) \<and>
    img_id img = img_id sel) \<and>
   0 < fsize (originalFile img)
   \<longrightarrow> status img = Compressed \<and> compressedSize img = fsize compressed \<and>
       compressionRatio img = ratio (fsize compressed) (fsize (originalFile img)) \<and>
       (\<exists>k. compressionRatio img = Num k \<and>
            \<bar>k - spec_ratio (fsize compressed) (fsize (originalFile img))\<bar> \<le> 1 \<and>
            (fsize (originalFile img) \<le> fsize compressed \<longrightarrow> k = 0)) \<and>
       (fsize (originalFile img) = 1000000 \<and> fsize compressed = 250000
          \<longrightarrow> compressionRatio img = Num 75)"
proof (intro impI, elim conjE)
  assume pos: "0 < fsize (originalFile img)"
  assume path:
    "img \<in> set (images (settle nextId
        (Resolved (compressImage (originalFile img) compressed url newName)) s)) \<and>
     img_id img = nextId \<or>
     img \<in> set (images (recompressSettled sel
        (Resolved (compressImage (originalFile sel) compressed url newName)) s)) \<and>
     img_id img = img_id sel"
  have rec: "compressionRatio img = ratio (fsize compressed) (fsize (originalFile img)) \<and>
             compressedSize img = fsize compressed \<and> status img = Compressed"
  proof (rule disjE [OF path])
    assume "img \<in> set (images (settle nextId
        (Resolved (compressImage (originalFile img) compressed url newName)) s)) \<and>
      img_id img = nextId"
    then show ?thesis
      using settle_resolved_record
        [of img nextId "compressImage (originalFile img) compressed url newName" s]
      by (simp add: compressImage_def)
  next
    assume "img \<in> set (images (recompressSettled sel
        (Resolved (compressImage (originalFile sel) compressed url newName)) s)) \<and>
      img_id img = img_id sel"
    then show ?thesis
      using recompressSettled_resolved_record
        [of img sel "compressImage (originalFile sel) compressed url newName" s]
      by (simp add: compressImage_def)
  qed
  have near: "\<exists>k. compressionRatio img = Num k \<and>
            \<bar>k - spec_ratio (fsize compressed) (fsize (originalFile img))\<bar> \<le> 1 \<and>
            (fsize (originalFile img) \<le> fsize compressed \<longrightarrow> k = 0)"
    using ratio_within_one [OF pos, of "fsize compressed"] rec by simp
  have ex: "fsize (originalFile img) = 1000000 \<and> fsize compressed = 250000
          \<longrightarrow> compressionRatio img = Num 75"
    using rec ratio_example by simp
  from rec near ex
  show "status img = Compressed \<and> compressedSize img = fsize compressed \<and>
       compressionRatio img = ratio (fsize compressed) (fsize (originalFile img)) \<and>
       (\<exists>k. compressionRatio img = Num k \<and>
            \<bar>k - spec_ratio (fsize compressed) (fsize (originalFile img))\<bar> \<le> 1 \<and>
            (fsize (originalFile img) \<le> fsize compressed \<longrightarrow> k = 0)) \<and>
       (fsize (originalFile img) = 1000000 \<and> fsize compressed = 250000
          \<longrightarrow> compressionRatio img = Num 75)"
    by blast
qed

theorem stored_ratio_witness:
  "map img_id (images (settle ''a'' (Resolved ex_result) ex_state1)) = [''a''] \<and>
   map originalFile (images (settle ''a'' (Resolved ex_result) ex_state1)) = [ex_small] \<and>
   fsize ex_small = 1000000 \<and> fsize ex_out = 250000 \<and>
   map status (images (settle ''a'' (Resolved ex_result) ex_state1)) = [Compressed] \<and>
   map compressedSize (images (settle ''a'' (Resolved ex_result) ex_state1)) = [250000] \<and>
   map compressionRatio (images (settle ''a'' (Resolved ex_result) ex_state1)) = [Num 75]"
proof -
  have sz: "fsize ex_small = 1000000" "fsize ex_out = 250000"
    by (simp_all add: ex_small_def ex_out_def)
  have ids: "map img_id (images (settle ''a'' (Resolved ex_result) ex_state1)) = [''a'']"
    by (simp add: ex_state1_def model_defs ex_defs)
  have ofs: "map originalFile (images (settle ''a'' (Resolved ex_result) ex_state1)) = [ex_small]"
    by (simp add: ex_state1_def model_defs ex_defs)
  from ids obtain img where im: "images (settle ''a'' (Resolved ex_result) ex_state1) = [img]"
    and idn: "img_id img = ''a''" by auto
  from ofs im have orig: "originalFile img = ex_small" by simp
  have mem: "img \<in> set (images (settle ''a''
               (Resolved (compressImage (originalFile img) ex_out ''blob:a.webp'' ''a.webp''))
               ex_state1))"
    using im orig by (simp add: ex_result_def)
  have pos: "0 < fsize (originalFile img)" using orig sz by simp
  have hyp: "(img \<in> set (images (settle ''a''
               (Resolved (compressImage (originalFile img) ex_out ''blob:a.webp'' ''a.webp''))
               ex_state1)) \<and> img_id img = ''a'' \<or>
     img \<in> set (images (recompressSettled img
               (Resolved (compressImage (originalFile img) ex_out ''blob:a.webp'' ''a.webp''))
               ex_state1)) \<and> img_id img = img_id img) \<and>
     0 < fsize (originalFile img)"
    using pos idn mem by blast
  have "status img = Compressed \<and> compressedSize img = fsize ex_out \<and>
        (fsize (originalFile img) = 1000000 \<and> fsize ex_out = 250000
           \<longrightarrow> compressionRatio img = Num 75)"
    using stored_ratio [where img = img and nextId = "''a''" and compressed = ex_out
        and url = "''blob:a.webp''" and newName = "''a.webp''" and s = ex_state1 and sel = img]
      hyp by blast
  then have "status img = Compressed \<and> compressedSize img = 250000 \<and>
             compressionRatio img = Num 75"
    using sz orig by simp
  then show ?thesis using sz ids ofs im by simp
qed

text \<open>
  The claim as stated fails: for an input of 1,000,000 bytes and an output of 425,000
  bytes the exact percentage is 57.5 and the formula gives 58, while the three double
  operations give 57.49999999999999 and the record holds 57.
\<close>

theorem ratio_rounding_counterexample:
  "fsize ex_small = 1000000 \<and> fsize ex_half = 425000 \<and>
   map originalFile (images (settle ''a'' (Resolved ex_result_half) ex_state1)) = [ex_small] \<and>
   map status (images (settle ''a'' (Resolved ex_result_half) ex_state1)) = [Compressed] \<and>
   map compressedSize (images (settle ''a'' (Resolved ex_result_half) ex_state1)) = [425000] \<and>
   map compressionRatio (images (settle ''a'' (Resolved ex_result_half) ex_state1)) = [Num 57] \<and>
   spec_ratio 425000 1000000 = 58"
  by (simp add: ex_state1_def model_defs ex_defs ex_half_def ex_result_half_def
        ratio_def Math_round_def fl_eval spec_ratio_def round_def)

section \<open>Submitting a batch\<close>

lemma handleFiles_rejected:
  assumes "filter (\<lambda>f. startsWith (ftype f) ''image/'') fs = [] \<or>
           filter (\<lambda>f. 5 * 1024 * 1024 < fsize f) (filter (\<lambda>f. startsWith (ftype f) ''image/'') fs) \<noteq> []"
  shows "images (handleFiles rnd url (Some fs) s) = images s"
    and "queue (handleFiles rnd url (Some fs) s) = queue s"
    and "length (toasts (handleFiles rnd url (Some fs) s)) = Suc (length (toasts s))"
  using assms by (auto simp: handleFiles_def Let_def MAX_UPLOAD_SIZE_MB_def)

lemma all_valid:
  assumes "filter (\<lambda>f. 5 * 1024 * 1024 < fsize f) (filter (\<lambda>f. startsWith (ftype f) ''image/'') fs) = []"
  shows "filter (\<lambda>f. startsWith (ftype f) ''image/'') fs = filter valid_file fs"
proof -
  have "\<forall>f \<in> set fs. startsWith (ftype f) ''image/'' \<longrightarrow> fsize f \<le> 5 * 1024 * 1024"
    using assms by (auto simp: filter_empty_conv)
  then show ?thesis
    by (intro filter_cong) (auto simp: valid_file_def)
qed

lemma handleFiles_accepted:
  assumes "filter (\<lambda>f. startsWith (ftype f) ''image/'') fs \<noteq> []"
    and "filter (\<lambda>f. 5 * 1024 * 1024 < fsize f) (filter (\<lambda>f. startsWith (ftype f) ''image/'') fs) = []"
  shows "images (handleFiles rnd url (Some fs) s) =
           images s @ map (\<lambda>(k, file). newImage (rnd k) (url file) file)
                          (enumerate 0 (filter valid_file fs))"
    and "queue (handleFiles rnd url (Some fs) s) =
           queue s @ map (\<lambda>(k, file). rnd k) (enumerate 0 (filter valid_file fs))"
    and "toasts (handleFiles rnd url (Some fs) s) = toasts s"
  using assms all_valid[OF assms(2)]
  by (auto simp: handleFiles_def Let_def MAX_UPLOAD_SIZE_MB_def newImage_def split_def)

text \<open>
  C1 (as amended). A batch is taken whole or not at all. Files that are not image data
  are dropped without any report. If no image file is left, or if any image file is
  larger than 5 MiB, one error is reported and no job is created, whatever else the
  batch holds. Otherwise every image file becomes a new \<open>Queued\<close> job, appended to the
  registry and to the pending list in input order, and nothing is reported; only in
  that case does the number of new jobs equal the number of valid files.
\<close>

theorem handleFiles_all_or_nothing:
  "(if filter (\<lambda>f. startsWith (ftype f) ''image/'') fs = [] \<or>
       filter (\<lambda>f. 5 * 1024 * 1024 < fsize f)
              (filter (\<lambda>f. startsWith (ftype f) ''image/'') fs) \<noteq> []
    then images (handleFiles rnd url (Some fs) s) = images s \<and>
         queue (handleFiles rnd url (Some fs) s) = queue s \<and>
         length (toasts (handleFiles rnd url (Some fs) s)) = Suc (length (toasts s))
    else images (handleFiles rnd url (Some fs) s) =
           images s @ map (\<lambda>(k, file). newImage (rnd k) (url file) file)
                          (enumerate 0 (filter valid_file fs)) \<and>
         queue (handleFiles rnd url (Some fs) s) =
           queue s @ map (\<lambda>(k, file). rnd k) (enumerate 0 (filter valid_file fs)) \<and>
         toasts (handleFiles rnd url (Some fs) s) = toasts s \<and>
         map originalFile (drop (length (images s)) (images (handleFiles rnd url (Some fs) s)))
           = filter valid_file fs \<and>
         map status (drop (length (images s)) (images (handleFiles rnd url (Some fs) s)))
           = replicate (length (filter valid_file fs)) Queued)"
proof (cases "filter (\<lambda>f. startsWith (ftype f) ''image/'') fs = [] \<or>
       filter (\<lambda>f. 5 * 1024 * 1024 < fsize f)
              (filter (\<lambda>f. startsWith (ftype f) ''image/'') fs) \<noteq> []")
  case True
  then show ?thesis
    using handleFiles_rejected[OF True, of rnd url s] by simp
next
  case False
  then have a: "filter (\<lambda>f. startsWith (ftype f) ''image/'') fs \<noteq> []"
    and b: "filter (\<lambda>f. 5 * 1024 * 1024 < fsize f) (filter (\<lambda>f. startsWith (ftype f) ''image/'') fs) = []"
    by auto
  have of_new: "map originalFile (map (\<lambda>(k, file). newImage (rnd k) (url file) file) (enumerate 0 xs)) = xs" for xs
    by (simp add: newImage_def split_def comp_def enumerate_eq_zip)
  have st_new: "map status (map (\<lambda>(k, file). newImage (rnd k) (url file) file) (enumerate 0 xs)) = replicate (length xs) Queued" for xs
    by (simp add: newImage_def split_def comp_def map_replicate_const)
  show ?thesis
    using False handleFiles_accepted[OF a b, of rnd url s] of_new st_new by simp
qed

theorem handleFiles_all_or_nothing_witness:
  "queue (handleFiles (ex_rnd ''a'') ex_url (Some [ex_text, ex_small]) initial_state) = [''a''] \<and>
   map status (images (handleFiles (ex_rnd ''a'') ex_url (Some [ex_text, ex_small]) initial_state))
     = [Queued] \<and>
   images (handleFiles (ex_rnd ''a'') ex_url (Some [ex_small, ex_big]) initial_state) = []"
proof -
  have c1: "\<not> (filter (\<lambda>f. startsWith (ftype f) ''image/'') [ex_text, ex_small] = [] \<or>
       filter (\<lambda>f. 5 * 1024 * 1024 < fsize f)
              (filter (\<lambda>f. startsWith (ftype f) ''image/'') [ex_text, ex_small]) \<noteq> [])"
    by (simp add: startsWith_def ex_defs)
  have c2: "filter (\<lambda>f. startsWith (ftype f) ''image/'') [ex_small, ex_big] = [] \<or>
       filter (\<lambda>f. 5 * 1024 * 1024 < fsize f)
              (filter (\<lambda>f. startsWith (ftype f) ''image/'') [ex_small, ex_big]) \<noteq> []"
    by (simp add: startsWith_def ex_defs)
  have v1: "filter valid_file [ex_text, ex_small] = [ex_small]"
    by (simp add: valid_file_def startsWith_def ex_defs)
  have i0: "images initial_state = []" "queue initial_state = []"
    by (simp_all add: initial_state_def)
  note acc = handleFiles_all_or_nothing
    [of "[ex_text, ex_small]" "ex_rnd ''a''" ex_url initial_state, unfolded if_not_P [OF c1]]
  note rej = handleFiles_all_or_nothing
    [of "[ex_small, ex_big]" "ex_rnd ''a''" ex_url initial_state, unfolded if_P [OF c2]]
  from acc have "queue (handleFiles (ex_rnd ''a'') ex_url (Some [ex_text, ex_small]) initial_state)
      = queue initial_state @ map (\<lambda>(k, file). ex_rnd ''a'' k)
                                  (enumerate 0 (filter valid_file [ex_text, ex_small]))"
    by blast
  then have a: "queue (handleFiles (ex_rnd ''a'') ex_url (Some [ex_text, ex_small]) initial_state)
             = [''a'']"
    unfolding v1 i0 by (simp add: ex_rnd_def)
  from acc have "map status (drop (length (images initial_state))
       (images (handleFiles (ex_rnd ''a'') ex_url (Some [ex_text, ex_small]) initial_state)))
      = replicate (length (filter valid_file [ex_text, ex_small])) Queued"
    by blast
  then have b: "map status (images (handleFiles (ex_rnd ''a'') ex_url (Some [ex_text, ex_small])
             initial_state)) = [Queued]"
    unfolding v1 i0 by simp
  from rej have c: "images (handleFiles (ex_rnd ''a'') ex_url (Some [ex_small, ex_big])
      initial_state) = []"
    unfolding i0 by blast
  from a b c show ?thesis by blast
qed

text \<open>
  The claim as stated fails: a batch of one valid image and one image over the limit
  has one valid file and gives no job.
\<close>

theorem batch_counterexample:
  "length (filter valid_file [ex_small, ex_big]) = 1 \<and>
   images (handleFiles (ex_rnd ''a'') ex_url (Some [ex_small, ex_big]) initial_state) = []"
  by (simp add: valid_file_def model_defs ex_defs)

end
